theory Spec2Isabelle
  imports Complex_Main "HOL-Library.Stream"
begin

section \<open>The alert manager (alert store and dispatch coordinator)\<close>

text \<open>
  The embedding follows the class \<open>AlertManager\<close>. Prices are JavaScript numbers; the
  model takes them as finite numbers, embedded in \<open>real\<close> (the comparisons of the source
  agree with the order of the reals there). Times are the millisecond readings of
  \<open>Date.now()\<close>, integers. An alert's \<open>type\<close> is one of the three strings the source
  compares against, and its \<open>status\<close> one of the two it assigns.

  The operations of a manager run one at a time: nothing else touches the manager
  while an operation waits for a notifier, and the listeners of its events do not call
  back into it. The synchronous parts of an operation take no time; time passes while
  a notifier is called, and between operations. The clock does not run backwards.
\<close>

datatype alert_type = Above | Below | Cross

datatype alert_status = Active | Triggered

record alert =
  ident :: string
  symbol :: string
  price :: real
  atype :: alert_type
  status :: alert_status
  created :: int
  lastPrice :: "real option"
  triggeredAt :: "int option"
  triggeredPrice :: "real option"
  repeat :: bool

text \<open>
  The argument of \<open>addAlert\<close>. A field of type \<open>option\<close> is a property that may be
  absent from the object. The source spreads the whole definition over the defaults
  (\<open>...alertConfig\<close>), so a definition that carries \<open>status\<close> or \<open>lastPrice\<close>
  overrides the default, and an absent \<open>repeat\<close> reads as false.
\<close>

record alertConfig =
  cfg_id :: "string option"
  cfg_symbol :: string
  cfg_price :: real
  cfg_type :: "alert_type option"
  cfg_status :: "alert_status option"
  cfg_lastPrice :: "real option"
  cfg_repeat :: bool

text \<open>
  The text of a notification, \<open>formatAlertMessage\<close>: the template
  \<open>emoji symbol type $price (current: $triggeredPrice)\<close>, kept as its components (the
  rendering of a number as text is not modelled).
\<close>

datatype glyph = ChartUp | ChartDown

datatype message = Message glyph string alert_type real "real option"

record notification =
  payload :: alert
  message :: message

text \<open>
  A notifier is an external object with one method, \<open>send\<close>. Called with a notification
  at some time, it either returns or throws, takes some time to do so, and is a
  possibly different object afterwards. A call that never returns is outside the model.
\<close>

datatype send_result = Returned bool | Threw string

codatatype notifier =
  Notifier (send: "notification \<Rightarrow> int \<Rightarrow> send_result \<times> nat \<times> notifier")

datatype event = AlertCreated alert | AlertRemoved alert | AlertTriggered alert

datatype error = CapacityError int

type_synonym alert_key = "string \<times> alert_type \<times> real"

text \<open>
  The state of an \<open>AlertManager\<close>. \<open>alerts\<close> is the JavaScript \<open>Map\<close> in insertion
  order, as an association list. The last four fields are what the manager reads from
  and does to its environment: the clock, the events it emitted, the errors it logged
  and the delivery attempts it made (the index of the notifier, and what it was given).
\<close>

record manager =
  alerts :: "(string \<times> alert) list"
  notifiers :: "notifier list"
  alertHistory :: "alert list"
  maxAlerts :: int
  cooldown :: int
  lastAlertTimes :: "alert_key \<rightharpoonup> int"
  hasLogger :: bool
  now :: int
  emitted :: "event list"
  logged :: "string list"
  sends :: "(nat \<times> notification) list"

record config =
  c_maxAlerts :: "int option"
  c_cooldown :: "int option"
  c_logger :: bool

subsection \<open>The operations of a JavaScript Map\<close>

fun mapGet :: "string \<Rightarrow> (string \<times> 'v) list \<Rightarrow> 'v option" where
  "mapGet k [] = None"
| "mapGet k ((k', v) # m) = (if k' = k then Some v else mapGet k m)"

fun mapSet :: "string \<Rightarrow> 'v \<Rightarrow> (string \<times> 'v) list \<Rightarrow> (string \<times> 'v) list" where
  "mapSet k v [] = [(k, v)]"
| "mapSet k v ((k', v') # m) = (if k' = k then (k, v) # m else (k', v') # mapSet k v m)"

fun mapDelete :: "string \<Rightarrow> (string \<times> 'v) list \<Rightarrow> (string \<times> 'v) list" where
  "mapDelete k [] = []"
| "mapDelete k ((k', v) # m) = (if k' = k then mapDelete k m else (k', v) # mapDelete k m)"

text \<open>
  A write to a field of the object stored under a key: the objects of the map are
  distinct, so the write is seen under that key only.
\<close>

fun mapModify :: "string \<Rightarrow> ('v \<Rightarrow> 'v) \<Rightarrow> (string \<times> 'v) list \<Rightarrow> (string \<times> 'v) list" where
  "mapModify k f [] = []"
| "mapModify k f ((k', v) # m) =
     (if k' = k then (k', f v) # m else (k', v) # mapModify k f m)"

subsection \<open>Construction, addNotifier, addAlert, removeAlert\<close>

text \<open>\<open>config.maxAlerts || 100\<close> and \<open>config.cooldown || 3600000\<close>: zero is falsy.\<close>

definition orDefault :: "int option \<Rightarrow> int \<Rightarrow> int" where
  "orDefault v d = (case v of None \<Rightarrow> d | Some x \<Rightarrow> if x = 0 then d else x)"

definition AlertManager :: "config \<Rightarrow> int \<Rightarrow> manager" where
  "AlertManager cfg t =
     \<lparr>alerts = [], notifiers = [], alertHistory = [],
      maxAlerts = orDefault (c_maxAlerts cfg) 100,
      cooldown = orDefault (c_cooldown cfg) 3600000,
      lastAlertTimes = Map.empty, hasLogger = c_logger cfg,
      now = t, emitted = [], logged = [], sends = []\<rparr>"

definition addNotifier :: "notifier \<Rightarrow> manager \<Rightarrow> manager" where
  "addNotifier n s = s\<lparr>notifiers := notifiers s @ [n]\<rparr>"

text \<open>
  \<open>addAlert\<close>. The second argument is the identifier \<open>uuidv4()\<close> would return; it is
  used only when the definition has no truthy \<open>id\<close> (absent or the empty string). The
  spread puts a present \<open>id\<close> into the record even when it is falsy. The result is the
  returned alert or the thrown error, and the state afterwards.
\<close>

definition alertIdOf :: "alertConfig \<Rightarrow> string \<Rightarrow> string" where
  "alertIdOf c uuid = (case cfg_id c of None \<Rightarrow> uuid | Some x \<Rightarrow> if x = [] then uuid else x)"

definition newAlert :: "alertConfig \<Rightarrow> string \<Rightarrow> int \<Rightarrow> alert" where
  "newAlert c uuid t =
     \<lparr>ident = (case cfg_id c of None \<Rightarrow> alertIdOf c uuid | Some x \<Rightarrow> x),
      symbol = cfg_symbol c,
      price = cfg_price c,
      atype = (case cfg_type c of None \<Rightarrow> Above | Some ty \<Rightarrow> ty),
      status = (case cfg_status c of None \<Rightarrow> Active | Some st \<Rightarrow> st),
      created = t,
      lastPrice = cfg_lastPrice c,
      triggeredAt = None,
      triggeredPrice = None,
      repeat = cfg_repeat c\<rparr>"

definition addAlert :: "alertConfig \<Rightarrow> string \<Rightarrow> manager \<Rightarrow> (error + alert) \<times> manager" where
  "addAlert c uuid s =
     (let alertId = alertIdOf c uuid;
          a = newAlert c uuid (now s)
      in if maxAlerts s \<le> int (length (alerts s))
         then (Inl (CapacityError (maxAlerts s)), s)
         else (Inr a, s\<lparr>alerts := mapSet alertId a (alerts s),
                          emitted := emitted s @ [AlertCreated a]\<rparr>))"

definition removeAlert :: "string \<Rightarrow> manager \<Rightarrow> bool \<times> manager" where
  "removeAlert alertId s =
     (case mapGet alertId (alerts s) of
        Some a \<Rightarrow> (True, s\<lparr>alerts := mapDelete alertId (alerts s),
                             emitted := emitted s @ [AlertRemoved a]\<rparr>)
      | None \<Rightarrow> (False, s))"

subsection \<open>getAlerts, checkAlert\<close>

record alertFilter =
  f_symbol :: "string option"
  f_status :: "alert_status option"
  f_type :: "alert_type option"

text \<open>
  A filter applies when its property is truthy: an absent or empty \<open>symbol\<close> selects
  every symbol. The three successive \<open>filter\<close> calls of the source are one conjunction.
\<close>

definition selects :: "alertFilter \<Rightarrow> alert \<Rightarrow> bool" where
  "selects f a \<longleftrightarrow>
     (case f_symbol f of None \<Rightarrow> True | Some sy \<Rightarrow> sy = [] \<or> symbol a = sy) \<and>
     (case f_status f of None \<Rightarrow> True | Some st \<Rightarrow> status a = st) \<and>
     (case f_type f of None \<Rightarrow> True | Some ty \<Rightarrow> atype a = ty)"

definition getAlerts :: "alertFilter \<Rightarrow> manager \<Rightarrow> alert list" where
  "getAlerts f s = filter (selects f) (map snd (alerts s))"

text \<open>
  \<open>checkAlert\<close> returns the verdict and the alert with \<open>lastPrice\<close> written. A
  comparison with an unset \<open>lastPrice\<close> (\<open>undefined\<close>) is false in JavaScript.
\<close>

definition lastBelow :: "alert \<Rightarrow> bool" where
  "lastBelow a = (case lastPrice a of None \<Rightarrow> False | Some l \<Rightarrow> l < price a)"

definition lastAbove :: "alert \<Rightarrow> bool" where
  "lastAbove a = (case lastPrice a of None \<Rightarrow> False | Some l \<Rightarrow> price a < l)"

definition checkAlert :: "alert \<Rightarrow> real \<Rightarrow> bool \<times> alert" where
  "checkAlert a currentPrice =
     (if status a \<noteq> Active then (False, a)
      else
        let shouldTrigger =
              (atype a = Above \<and> price a \<le> currentPrice) \<or>
              (atype a = Below \<and> currentPrice \<le> price a) \<or>
              (atype a = Cross \<and>
                ((lastBelow a \<and> price a \<le> currentPrice) \<or>
                 (lastAbove a \<and> currentPrice \<le> price a)))
        in (shouldTrigger, a\<lparr>lastPrice := Some currentPrice\<rparr>))"

subsection \<open>sendAlert\<close>

definition formatAlertMessage :: "alert \<Rightarrow> message" where
  "formatAlertMessage a =
     Message (if atype a = Above then ChartUp else ChartDown)
       (symbol a) (atype a) (price a) (triggeredPrice a)"

text \<open>
  The loop of \<open>sendAlert\<close> over the notifiers, from the notifier of index \<open>i\<close> on. Each
  call is recorded in \<open>sends\<close>; a thrown error is caught, and logged when there is a
  logger. The result is the notifiers after their calls, and the state.
\<close>

fun sendAlert_loop :: "notification \<Rightarrow> nat \<Rightarrow> notifier list \<Rightarrow> manager \<Rightarrow> notifier list \<times> manager" where
  "sendAlert_loop n i [] s = ([], s)"
| "sendAlert_loop n i (x # xs) s =
     (case send x n (now s) of
        (r, d, x') \<Rightarrow>
          let s1 = s\<lparr>now := now s + int d, sends := sends s @ [(i, n)]\<rparr>;
              s2 = (case r of
                      Threw e \<Rightarrow> if hasLogger s1 then s1\<lparr>logged := logged s1 @ [e]\<rparr> else s1
                    | Returned b \<Rightarrow> s1)
          in case sendAlert_loop n (Suc i) xs s2 of (xs', s3) \<Rightarrow> (x' # xs', s3))"

definition sendAlert :: "alert \<Rightarrow> manager \<Rightarrow> manager" where
  "sendAlert a s =
     (let msg = formatAlertMessage a
      in case sendAlert_loop \<lparr>payload = a, message = msg\<rparr> 0 (notifiers s) s of
           (ns, s') \<Rightarrow> s'\<lparr>notifiers := ns\<rparr>)"

subsection \<open>processPriceUpdate\<close>

text \<open>
  \<open>lastAlertTime && Date.now() - lastAlertTime < this.cooldown\<close>: an absent entry and
  the time 0 are falsy.
\<close>

definition inCooldown :: "manager \<Rightarrow> alert_key \<Rightarrow> bool" where
  "inCooldown s k =
     (case lastAlertTimes s k of
        None \<Rightarrow> False
      | Some t \<Rightarrow> t \<noteq> 0 \<and> now s - t < cooldown s)"

text \<open>\<open>push\<close>, then \<open>shift\<close> when the history is longer than 100.\<close>

definition pushHistory :: "alert list \<Rightarrow> alert \<Rightarrow> alert list" where
  "pushHistory h e = (let h' = h @ [e] in if 100 < length h' then tl h' else h')"

definition alertKey :: "alert \<Rightarrow> alert_key" where
  "alertKey a = (symbol a, atype a, price a)"

text \<open>
  The body of the loop of \<open>processPriceUpdate\<close>, for the alert stored under key \<open>k\<close>.
  The source holds a reference to the alert object; the model reads and writes the
  object through its key, which is the same as long as no alert is added or removed
  while the update runs (operations run one at a time). The cooldown key is the text
  \<open>symbol-type-price\<close>. Two alerts have the same text only if they agree on the three
  parts, since the type is one of three words of five letters and the text of a number
  contains none of them; so the key is modelled by the triple.
\<close>

definition processPriceUpdate_body :: "string \<Rightarrow> real \<Rightarrow> manager \<Rightarrow> manager" where
  "processPriceUpdate_body k p s =
     (case mapGet k (alerts s) of
        None \<Rightarrow> s
      | Some a \<Rightarrow>
          (case checkAlert a p of
             (fire, a1) \<Rightarrow>
               let s1 = s\<lparr>alerts := mapModify k (\<lambda>_. a1) (alerts s)\<rparr>
               in if \<not> fire then s1
                  else
                    let lastAlertKey = alertKey a1
                    in if inCooldown s1 lastAlertKey then s1
                       else
                         let a2 = a1\<lparr>status := Triggered,
                                     triggeredAt := Some (now s1),
                                     triggeredPrice := Some p\<rparr>;
                             s2 = s1\<lparr>alerts := mapModify k (\<lambda>_. a2) (alerts s1),
                                     lastAlertTimes := (lastAlertTimes s1)(lastAlertKey \<mapsto> now s1),
                                     alertHistory := pushHistory (alertHistory s1) a2,
                                     emitted := emitted s1 @ [AlertTriggered a2]\<rparr>;
                             s3 = sendAlert a2 s2
                         in if repeat a2
                            then s3\<lparr>alerts := mapModify k (\<lambda>a. a\<lparr>status := Active\<rparr>) (alerts s3)\<rparr>
                            else s3))"

fun processPriceUpdate_loop :: "string list \<Rightarrow> real \<Rightarrow> manager \<Rightarrow> manager" where
  "processPriceUpdate_loop [] p s = s"
| "processPriceUpdate_loop (k # ks) p s =
     processPriceUpdate_loop ks p (processPriceUpdate_body k p s)"

definition activeOn :: "string \<Rightarrow> alertFilter" where
  "activeOn smb = \<lparr>f_symbol = Some smb, f_status = Some Active, f_type = None\<rparr>"

definition processPriceUpdate :: "string \<Rightarrow> real \<Rightarrow> manager \<Rightarrow> manager" where
  "processPriceUpdate smb p s =
     processPriceUpdate_loop
       (map fst (filter (\<lambda>(k, a). selects (activeOn smb) a) (alerts s))) p s"

subsection \<open>clearTriggered\<close>

text \<open>The source deletes by the \<open>id\<close> field of each triggered alert.\<close>

definition clearTriggered :: "manager \<Rightarrow> nat \<times> manager" where
  "clearTriggered s =
     (let triggered = getAlerts \<lparr>f_symbol = None, f_status = Some Triggered, f_type = None\<rparr> s
      in (length triggered,
          s\<lparr>alerts := foldl (\<lambda>m a. mapDelete (ident a) m) (alerts s) triggered\<rparr>))"

subsection \<open>Reachable states\<close>

text \<open>
  The states of a manager from its construction on, under its operations and the
  passing of time. \<open>getAlerts\<close> and \<open>getStatistics\<close> change nothing. A generated
  identifier is never empty.
\<close>

inductive reachable :: "manager \<Rightarrow> bool" where
  r_new: "reachable (AlertManager cfg t)"
| r_addNotifier: "reachable s \<Longrightarrow> reachable (addNotifier n s)"
| r_addAlert: "reachable s \<Longrightarrow> uuid \<noteq> [] \<Longrightarrow> reachable (snd (addAlert c uuid s))"
| r_removeAlert: "reachable s \<Longrightarrow> reachable (snd (removeAlert k s))"
| r_processPriceUpdate: "reachable s \<Longrightarrow> reachable (processPriceUpdate smb p s)"
| r_clearTriggered: "reachable s \<Longrightarrow> reachable (snd (clearTriggered s))"
| r_elapse: "reachable s \<Longrightarrow> reachable (s\<lparr>now := now s + int d\<rparr>)"

subsection \<open>Observations used by the statements\<close>

text \<open>The alerts of the \<open>alert_triggered\<close> events of a trace, in order.\<close>

fun triggeredAlerts :: "event list \<Rightarrow> alert list" where
  "triggeredAlerts [] = []"
| "triggeredAlerts (AlertTriggered a # es) = a # triggeredAlerts es"
| "triggeredAlerts (e # es) = triggeredAlerts es"

text \<open>
  The guard of the firing branch of the loop body, for the alert stored under \<open>k\<close>:
  the alert is active, \<open>checkAlert\<close> says yes, and its key is not in cooldown.
\<close>

definition fires :: "string \<Rightarrow> real \<Rightarrow> manager \<Rightarrow> bool" where
  "fires k p s =
     (case mapGet k (alerts s) of
        None \<Rightarrow> False
      | Some a \<Rightarrow> status a = Active \<and> fst (checkAlert a p) \<and> \<not> inCooldown s (alertKey a))"

text \<open>
  The alert as the loop body has written it when it fires at price \<open>p\<close> and time \<open>t\<close>:
  this is the object of the \<open>alert_triggered\<close> event, of the history entry and of the
  notifications.
\<close>

definition firedAlert :: "alert \<Rightarrow> real \<Rightarrow> int \<Rightarrow> alert" where
  "firedAlert a p t =
     a\<lparr>lastPrice := Some p, status := Triggered, triggeredAt := Some t, triggeredPrice := Some p\<rparr>"

text \<open>The alerts of the \<open>alert_triggered\<close> events emitted so far for one cooldown key.\<close>

definition triggeredOn :: "alert_key \<Rightarrow> manager \<Rightarrow> alert list" where
  "triggeredOn key s = filter (\<lambda>a. alertKey a = key) (triggeredAlerts (emitted s))"

text \<open>The cooldown key of each stored alert.\<close>

definition keysOf :: "manager \<Rightarrow> (string \<times> alert_key) list" where
  "keysOf s = map (\<lambda>(j, b). (j, alertKey b)) (alerts s)"

text \<open>The alert stored under \<open>k\<close> is the only one on the cooldown key.\<close>

definition alone :: "string \<Rightarrow> alert_key \<Rightarrow> manager \<Rightarrow> bool" where
  "alone k key s \<longleftrightarrow> distinct (map fst (alerts s)) \<and>
     (\<forall>(j, c) \<in> set (keysOf s). j \<noteq> k \<longrightarrow> c \<noteq> key)"

text \<open>
  What holds of every store: the history is bounded, and the keys of the Map are
  distinct and truthy.
\<close>

definition storeOk :: "manager \<Rightarrow> bool" where
  "storeOk s \<longleftrightarrow> length (alertHistory s) \<le> 100 \<and> distinct (map fst (alerts s)) \<and>
                 [] \<notin> fst ` set (alerts s)"

text \<open>One dispatch cycle: what \<open>sendAlert\<close> hands to each of \<open>n\<close> notifiers.\<close>

definition dispatchCycle :: "nat \<Rightarrow> alert \<Rightarrow> (nat \<times> notification) list" where
  "dispatchCycle n a = map (\<lambda>j. (j, \<lparr>payload = a, message = formatAlertMessage a\<rparr>)) [0..<n]"

text \<open>A sequence of price updates on one symbol, each after some time has passed.\<close>

fun priceUpdates :: "string \<Rightarrow> (nat \<times> real) list \<Rightarrow> manager \<Rightarrow> manager" where
  "priceUpdates smb [] s = s"
| "priceUpdates smb ((d, p) # ps) s = priceUpdates smb ps (processPriceUpdate smb p (s\<lparr>now := now s + int d\<rparr>))"

section \<open>The Telegram notifier\<close>

text \<open>
  The state of a \<open>TelegramNotifier\<close>, for notifications of any type. \<open>bot_obj\<close> is whether
  the bot object is set. The last three fields are the environment: the clock, the
  successful deliveries (when the delivery was attempted, the send time recorded
  after it, and the notification) and the notifications of the \<open>send_error\<close> events.
  The method \<open>send\<close> is \<open>tsend\<close> here, \<open>send\<close> being the method of the notifier
  interface above. The clock does not run backwards.
\<close>

record 'n telegram =
  botToken :: "string option"
  chatId :: "string option"
  enabled :: bool
  bot_obj :: bool
  lastSendTime :: int
  minInterval :: int
  messageQueue :: "'n list"
  processing :: bool
  clock :: int
  deliveries :: "(int \<times> int \<times> 'n) list"
  sendErrors :: "'n list"

record telegramConfig =
  t_botToken :: "string option"
  t_chatId :: "string option"
  t_enabled :: "bool option"

definition TelegramNotifier :: "telegramConfig \<Rightarrow> int \<Rightarrow> 'n telegram" where
  "TelegramNotifier cfg t =
     \<lparr>botToken = t_botToken cfg, chatId = t_chatId cfg,
      enabled = (t_enabled cfg \<noteq> Some False), bot_obj = False,
      lastSendTime = 0, minInterval = 1000, messageQueue = [], processing = False,
      clock = t, deliveries = [], sendErrors = []\<rparr>"

definition initialize :: "'n telegram \<Rightarrow> bool \<times> 'n telegram" where
  "initialize s =
     (if \<not> enabled s \<or> botToken s = None \<or> botToken s = Some [] then (False, s)
      else (True, s\<lparr>bot_obj := True\<rparr>))"

text \<open>
  What the environment decides in one turn of the drain loop: by how much the timer
  of \<open>sleep\<close> fires late (it does not fire early), whether \<open>sendMessage\<close> returns or
  throws, and how long it takes.
\<close>

record turn =
  oversleep :: nat
  thrown :: bool
  duration :: nat

text \<open>One turn of the loop of \<open>processQueue\<close>, for the notification just dequeued.\<close>

definition processQueue_turn :: "turn \<Rightarrow> 'n \<Rightarrow> 'n telegram \<Rightarrow> 'n telegram" where
  "processQueue_turn e n s =
     (let now0 = clock s;
          timeSinceLastSend = now0 - lastSendTime s;
          t1 = (if timeSinceLastSend < minInterval s
                then now0 + (minInterval s - timeSinceLastSend) + int (oversleep e)
                else now0);
          t2 = t1 + int (duration e)
      in if thrown e
         then s\<lparr>clock := t2, sendErrors := sendErrors s @ [n]\<rparr>
         else s\<lparr>clock := t2, lastSendTime := t2, deliveries := deliveries s @ [(t1, t2, n)]\<rparr>)"

function processQueue_loop :: "turn stream \<Rightarrow> 'n telegram \<Rightarrow> 'n telegram" where
  "processQueue_loop env s =
     (case messageQueue s of
        [] \<Rightarrow> s
      | n # q \<Rightarrow>
          processQueue_loop (stl env) (processQueue_turn (shd env) n (s\<lparr>messageQueue := q\<rparr>)))"
  by pat_completeness auto

termination
  by (relation "measure (\<lambda>(env, s). length (messageQueue s))")
     (auto simp: processQueue_turn_def Let_def)

definition processQueue :: "turn stream \<Rightarrow> 'n telegram \<Rightarrow> 'n telegram" where
  "processQueue env s =
     (if processing s \<or> messageQueue s = [] then s
      else (processQueue_loop env (s\<lparr>processing := True\<rparr>))\<lparr>processing := False\<rparr>)"

definition tsend :: "'n \<Rightarrow> turn stream \<Rightarrow> 'n telegram \<Rightarrow> bool \<times> 'n telegram" where
  "tsend n env s =
     (if \<not> enabled s \<or> \<not> bot_obj s then (False, s)
      else
        let s1 = s\<lparr>messageQueue := messageQueue s @ [n]\<rparr>
        in if \<not> processing s1 then (True, processQueue env s1) else (True, s1))"

definition cleanup :: "turn stream \<Rightarrow> 'n telegram \<Rightarrow> 'n telegram" where
  "cleanup env s =
     (let s1 = (if messageQueue s \<noteq> [] then processQueue env s else s)
      in s1\<lparr>bot_obj := False\<rparr>)"

text \<open>
  The states of a notifier from its construction on. A call of \<open>send\<close> made while a
  drain is suspended finds \<open>processing\<close> set and only appends to the queue; the
  drain that is running takes the notification in a later turn. The model runs a
  drain on the queue as it stands, from any state.
\<close>

inductive treachable :: "'n telegram \<Rightarrow> bool" where
  t_new: "treachable (TelegramNotifier cfg t)"
| t_initialize: "treachable s \<Longrightarrow> treachable (snd (initialize s))"
| t_send: "treachable s \<Longrightarrow> treachable (snd (tsend n env s))"
| t_cleanup: "treachable s \<Longrightarrow> treachable (cleanup env s)"
| t_elapse: "treachable s \<Longrightarrow> treachable (s\<lparr>clock := clock s + int d\<rparr>)"

text \<open>
  Successful deliveries in order: each is recorded no earlier than it was attempted,
  and the next is attempted no earlier than \<open>d\<close> after the previous was recorded.
\<close>

fun spaced :: "int \<Rightarrow> (int \<times> int \<times> 'n) list \<Rightarrow> bool" where
  "spaced d [] = True"
| "spaced d [(a, r, n)] = (a \<le> r)"
| "spaced d ((a, r, n) # (a', r', n') # xs) =
     (a \<le> r \<and> r + d \<le> a' \<and> spaced d ((a', r', n') # xs))"

text \<open>
  The deliveries so far are spaced by \<open>minInterval\<close>, and the last of them is the one
  \<open>lastSendTime\<close> records.
\<close>

definition paced :: "'n telegram \<Rightarrow> bool" where
  "paced s \<longleftrightarrow> spaced (minInterval s) (deliveries s) \<and>
     (deliveries s = [] \<or> fst (snd (last (deliveries s))) = lastSendTime s)"

section \<open>Example states\<close>

text \<open>Concrete configurations and stores, for the instances of the theorems below.\<close>

definition ethAbove :: "string \<Rightarrow> alertConfig" where
  "ethAbove i =
     \<lparr>cfg_id = Some i, cfg_symbol = ''ETHUSDT'', cfg_price = 3000, cfg_type = Some Above,
      cfg_status = None, cfg_lastPrice = None, cfg_repeat = False\<rparr>"

definition defaults :: config where
  "defaults = \<lparr>c_maxAlerts = None, c_cooldown = None, c_logger = False\<rparr>"

definition atMostTwo :: config where
  "atMostTwo = \<lparr>c_maxAlerts = Some 2, c_cooldown = None, c_logger = False\<rparr>"

text \<open>A notifier that always throws, and one that always returns after 5 ms.\<close>

primcorec failing :: notifier where
  "send failing = (\<lambda>n t. (Threw ''unreachable'', 0, failing))"

primcorec accepting :: notifier where
  "send accepting = (\<lambda>n t. (Returned True, 5, accepting))"

definition withLogger :: config where
  "withLogger = \<lparr>c_maxAlerts = None, c_cooldown = None, c_logger = True\<rparr>"

definition watched :: manager where
  "watched =
     addNotifier accepting (addNotifier failing
       (snd (addAlert (ethAbove ''a1'') ''u1'' (AlertManager withLogger 1700000000000))))"

definition twoAlerts :: "config \<Rightarrow> manager" where
  "twoAlerts cfg =
     snd (addAlert (ethAbove ''a2'') ''u2''
       (snd (addAlert (ethAbove ''a1'') ''u1'' (AlertManager cfg 1700000000000))))"

definition listening :: manager where
  "listening = addNotifier accepting (AlertManager defaults 1700000000000)"

definition twoWatched :: manager where
  "twoWatched =
     snd (addAlert (ethAbove ''a2'') ''u2'' (snd (addAlert (ethAbove ''a1'') ''u1'' listening)))"

text \<open>An alert (ETHUSDT, 3000, above) and an alert (ETHUSDT, 3000, below) in the same store.\<close>

definition ethBelow :: "string \<Rightarrow> alertConfig" where
  "ethBelow i = (ethAbove i)\<lparr>cfg_type := Some Below\<rparr>"

definition aboveBelow :: manager where
  "aboveBelow =
     snd (addAlert (ethBelow ''b1'') ''u2'' (snd (addAlert (ethAbove ''a1'') ''u1'' listening)))"

text \<open>
  An environment in which every timer fires on time and every delivery succeeds after
  20 ms, and a notifier that was given two notifications in it, one right after the
  other.
\<close>

definition steady :: "turn stream" where
  "steady = sconst \<lparr>oversleep = 0, thrown = False, duration = 20\<rparr>"

definition twoSent :: "string telegram" where
  "twoSent =
     snd (tsend ''m2'' steady (snd (tsend ''m1'' steady
       (snd (initialize
          (TelegramNotifier
             \<lparr>t_botToken = Some ''token'', t_chatId = Some ''chat'', t_enabled = None\<rparr>
             5000))))))"

text \<open>A store with one repeating alert, and three prices above its target within a minute.\<close>

definition repeating :: manager where
  "repeating = snd (addAlert ((ethAbove ''r1'')\<lparr>cfg_repeat := True\<rparr>) ''u1'' listening)"

definition threeHits :: "(nat \<times> real) list" where
  "threeHits = [(0, 3100), (30000, 3200), (30000, 3300)]"

text \<open>A store with one repeating \<open>cross\<close> alert at 3000, and prices rising through 3000.\<close>

definition ethCross :: alertConfig where
  "ethCross =
     \<lparr>cfg_id = Some ''c1'', cfg_symbol = ''ETHUSDT'', cfg_price = 3000, cfg_type = Some Cross,
      cfg_status = None, cfg_lastPrice = None, cfg_repeat = True\<rparr>"

definition crossing :: manager where
  "crossing = snd (addAlert ethCross ''u1'' listening)"

definition rising :: "(nat \<times> real) list" where
  "rising = [(0, 2900), (1000, 2950), (1000, 3050), (1000, 3100)]"

section \<open>Properties of the Map operations\<close>

lemma mapGet_None_iff: "mapGet k m = None \<longleftrightarrow> k \<notin> fst ` set m"
  by (induction m) (auto split: if_splits simp: image_iff)

lemma mapGet_Some_mem: "mapGet k m = Some a \<Longrightarrow> (k, a) \<in> set m"
  by (induction m) (auto split: if_splits)

lemma mapGet_distinct: "distinct (map fst m) \<Longrightarrow> (k, a) \<in> set m \<Longrightarrow> mapGet k m = Some a"
  by (induction m) (auto simp add: image_iff)

lemma mapDelete_filter: "mapDelete k m = filter (\<lambda>(k', v). k' \<noteq> k) m"
  by (induction m) auto

lemma mapGet_mapDelete: "mapGet j (mapDelete k m) = (if j = k then None else mapGet j m)"
  by (induction m) auto

lemma set_keys_mapDelete: "fst ` set (mapDelete k m) = fst ` set m - {k}"
  unfolding mapDelete_filter by force

lemma distinct_mapDelete: "distinct (map fst m) \<Longrightarrow> distinct (map fst (mapDelete k m))"
  unfolding mapDelete_filter by (rule distinct_map_filter)

lemma foldl_mapDelete_keys:
  "distinct (map fst m) \<Longrightarrow>
     distinct (map fst (foldl (\<lambda>m a. mapDelete (ident a) m) m as)) \<and>
     fst ` set (foldl (\<lambda>m a. mapDelete (ident a) m) m as) \<subseteq> fst ` set m"
proof (induction as arbitrary: m)
  case Nil
  then show ?case by simp
next
  case (Cons a as)
  from Cons.IH[OF distinct_mapDelete[OF Cons.prems, of "ident a"]]
  show ?case by (auto simp add: set_keys_mapDelete)
qed

lemma keys_mapSet_present: "k \<in> fst ` set m \<Longrightarrow> map fst (mapSet k v m) = map fst m"
proof (induction m)
  case Nil
  then show ?case by simp
next
  case (Cons x m)
  obtain k' v' where x: "x = (k', v')" by (cases x)
  show ?case
  proof (cases "k' = k")
    case True
    then show ?thesis by (simp add: x)
  next
    case False
    with Cons.prems have "k \<in> fst ` set m" by (simp add: x)
    with Cons.IH False show ?thesis by (simp add: x)
  qed
qed

lemma keys_mapSet_absent: "k \<notin> fst ` set m \<Longrightarrow> map fst (mapSet k v m) = map fst m @ [k]"
  by (induction m) auto

lemma length_mapSet_present: "k \<in> fst ` set m \<Longrightarrow> length (mapSet k v m) = length m"
  using keys_mapSet_present[of k m v] by (metis length_map)

lemma mapGet_mapSet: "mapGet j (mapSet k v m) = (if j = k then Some v else mapGet j m)"
  by (induction m) auto

lemma distinct_mapSet: "distinct (map fst m) \<Longrightarrow> distinct (map fst (mapSet k v m))"
proof (induction m)
  case Nil
  then show ?case by simp
next
  case (Cons x m)
  obtain k' v' where x: "x = (k', v')" by (cases x)
  show ?case
  proof (cases "k' = k")
    case True
    with Cons.prems show ?thesis by (simp add: x)
  next
    case False
    have "k' \<notin> fst ` set (mapSet k v m)"
    proof (cases "k \<in> fst ` set m")
      case True
      then have "map fst (mapSet k v m) = map fst m" by (rule keys_mapSet_present)
      then have "fst ` set (mapSet k v m) = fst ` set m" by (metis list.set_map)
      with Cons.prems show ?thesis by (simp add: x)
    next
      case False
      then have "map fst (mapSet k v m) = map fst m @ [k]" by (rule keys_mapSet_absent)
      then have "fst ` set (mapSet k v m) = insert k (fst ` set m)"
        by (metis list.set_map set_append list.simps(15) Un_insert_right sup_bot.right_neutral empty_set)
      with Cons.prems \<open>k' \<noteq> k\<close> show ?thesis by (simp add: x)
    qed
    with Cons False show ?thesis by (simp add: x)
  qed
qed

lemma set_keys_mapSet: "fst ` set (mapSet k v m) = insert k (fst ` set m)"
proof (cases "k \<in> fst ` set m")
  case True
  then have "map fst (mapSet k v m) = map fst m" by (rule keys_mapSet_present)
  then have "set (map fst (mapSet k v m)) = set (map fst m)" by simp
  with True show ?thesis by auto
next
  case False
  then have "map fst (mapSet k v m) = map fst m @ [k]" by (rule keys_mapSet_absent)
  then have "set (map fst (mapSet k v m)) = set (map fst m @ [k])" by simp
  then show ?thesis by auto
qed

lemma keys_mapModify: "map fst (mapModify k f m) = map fst m"
  by (induction m) auto

lemma length_mapModify: "length (mapModify k f m) = length m"
  by (induction m) auto

lemma mapGet_mapModify:
  "mapGet j (mapModify k f m) = (if j = k then map_option f (mapGet k m) else mapGet j m)"
  by (induction m) auto

lemma mapModify_same: "mapGet k m = Some a \<Longrightarrow> mapModify k (\<lambda>_. a) m = m"
  by (induction m) (auto split: if_splits)

lemma mapModify_twice: "mapModify k g (mapModify k f m) = mapModify k (\<lambda>v. g (f v)) m"
  by (induction m) auto

lemma mapModify_const:
  "mapGet k m = Some a \<Longrightarrow> mapModify k f m = mapModify k (\<lambda>_. f a) m"
  by (induction m) (auto split: if_splits)

lemma mapModify_absent: "mapGet k m = None \<Longrightarrow> mapModify k f m = m"
  by (induction m) (auto split: if_splits)

lemma keys_mapModify_same:
  "(\<And>b. g (f b) = g b) \<Longrightarrow>
     map (\<lambda>(j, b). (j, g b)) (mapModify k f m) = map (\<lambda>(j, b). (j, g b)) m"
  by (induction m) auto

lemma keys_mapModify_at:
  "mapGet k m = Some a \<Longrightarrow> g v = g a \<Longrightarrow>
     map (\<lambda>(j, b). (j, g b)) (mapModify k (\<lambda>_. v) m) = map (\<lambda>(j, b). (j, g b)) m"
  by (induction m) (auto split: if_splits)

lemma selected_key:
  "mapGet k m = Some a \<Longrightarrow> P a \<Longrightarrow> k \<in> set (map fst (filter (\<lambda>(k, a). P a) m))"
  using mapGet_Some_mem[of k m a] by force

lemma selected_split:
  assumes "distinct (map fst m)" and "mapGet k m = Some a" and "P a"
  shows "\<exists>pre post. map fst (filter (\<lambda>(k, a). P a) m) = pre @ k # post \<and>
                    k \<notin> set pre \<and> k \<notin> set post"
proof -
  from selected_key[OF assms(2), of P] assms(3)
  have "k \<in> set (map fst (filter (\<lambda>(k, a). P a) m))" by simp
  then obtain pre post where sp: "map fst (filter (\<lambda>(k, a). P a) m) = pre @ k # post"
    by (meson split_list)
  from assms(1) have "distinct (map fst (filter (\<lambda>(k, a). P a) m))" by (rule distinct_map_filter)
  with sp have "k \<notin> set pre \<and> k \<notin> set post" by simp
  with sp show ?thesis by blast
qed

lemma unselected_absent:
  assumes "distinct (map fst m)" and "mapGet k m = Some a" and "\<not> P a"
  shows "k \<notin> set (map fst (filter (\<lambda>(k, a). P a) m))"
proof
  assume "k \<in> set (map fst (filter (\<lambda>(k, a). P a) m))"
  then obtain b where b: "(k, b) \<in> set m" "P b" by auto
  from mapGet_distinct[OF assms(1) b(1)] assms(2) have "b = a" by simp
  with b(2) assms(3) show False by simp
qed

text \<open>Distinct keys: one value per key, and the selected keys around one entry.\<close>

lemma distinct_same_value:
  "distinct (map fst m) \<Longrightarrow> (j, b) \<in> set m \<Longrightarrow> (j, b') \<in> set m \<Longrightarrow> b = b'"
  by (induction m) (auto simp add: image_iff)

lemma selected_around:
  assumes "distinct (map fst (xs @ (k, a) # ys))" and "P a"
  shows "map fst (filter (\<lambda>(k, a). P a) (xs @ (k, a) # ys)) =
           map fst (filter (\<lambda>(k, a). P a) xs) @ k # map fst (filter (\<lambda>(k, a). P a) ys) \<and>
         k \<notin> set (map fst (filter (\<lambda>(k, a). P a) xs)) \<and>
         k \<notin> set (map fst (filter (\<lambda>(k, a). P a) ys))"
  using assms by (auto simp add: image_iff)

section \<open>The dispatch loop changes only the clock and the traces\<close>

lemma sendAlert_loop_frame:
  "sendAlert_loop n i xs s = (xs', s') \<Longrightarrow>
     alerts s' = alerts s \<and> alertHistory s' = alertHistory s \<and> maxAlerts s' = maxAlerts s \<and>
     cooldown s' = cooldown s \<and> lastAlertTimes s' = lastAlertTimes s \<and>
     hasLogger s' = hasLogger s \<and> emitted s' = emitted s \<and> notifiers s' = notifiers s \<and>
     now s \<le> now s' \<and> length xs' = length xs \<and>
     sends s' = sends s @ map (\<lambda>j. (j, n)) [i..<i + length xs]"
proof (induction xs arbitrary: i s xs' s')
  case Nil
  then show ?case by simp
next
  case (Cons x xs)
  obtain r d x' where sx: "send x n (now s) = (r, d, x')" by (cases "send x n (now s)")
  define s1 where "s1 = s\<lparr>now := now s + int d, sends := sends s @ [(i, n)]\<rparr>"
  define s2 where "s2 = (case r of
                      Threw e \<Rightarrow> if hasLogger s1 then s1\<lparr>logged := logged s1 @ [e]\<rparr> else s1
                    | Returned b \<Rightarrow> s1)"
  obtain ys s3 where d: "sendAlert_loop n (Suc i) xs s2 = (ys, s3)" by (cases "sendAlert_loop n (Suc i) xs s2")
  have step: "sendAlert_loop n i (x # xs) s = (case sendAlert_loop n (Suc i) xs s2 of (xs', s3) \<Rightarrow> (x' # xs', s3))"
    unfolding s2_def s1_def by (simp add: sx Let_def)
  from Cons.prems have res: "xs' = x' # ys" "s' = s3"
    unfolding step d by simp_all
  have s2: "alerts s2 = alerts s" "alertHistory s2 = alertHistory s" "maxAlerts s2 = maxAlerts s"
    "cooldown s2 = cooldown s" "lastAlertTimes s2 = lastAlertTimes s" "hasLogger s2 = hasLogger s"
    "emitted s2 = emitted s" "notifiers s2 = notifiers s" "now s \<le> now s2"
    "sends s2 = sends s @ [(i, n)]"
    by (simp_all add: s2_def s1_def split: send_result.splits)
  have u: "[i..<i + length (x # xs)] = i # [Suc i..<Suc i + length xs]"
  proof -
    have e: "i + length (x # xs) = Suc i + length xs" by simp
    have "i < Suc i + length xs" by simp
    then have "[i..<Suc i + length xs] = i # [Suc i..<Suc i + length xs]" by (rule upt_conv_Cons)
    then show ?thesis unfolding e .
  qed
  from Cons.IH[OF d] s2 res show ?case unfolding u by simp
qed

lemma sendAlert_frame:
  "alerts (sendAlert a s) = alerts s \<and> alertHistory (sendAlert a s) = alertHistory s \<and>
   maxAlerts (sendAlert a s) = maxAlerts s \<and> cooldown (sendAlert a s) = cooldown s \<and>
   lastAlertTimes (sendAlert a s) = lastAlertTimes s \<and> hasLogger (sendAlert a s) = hasLogger s \<and>
   emitted (sendAlert a s) = emitted s \<and> now s \<le> now (sendAlert a s) \<and>
   length (notifiers (sendAlert a s)) = length (notifiers s) \<and>
   sends (sendAlert a s) =
     sends s @ map (\<lambda>j. (j, \<lparr>payload = a, message = formatAlertMessage a\<rparr>)) [0..<length (notifiers s)]"
proof -
  obtain ns s' where d: "sendAlert_loop \<lparr>payload = a, message = formatAlertMessage a\<rparr> 0 (notifiers s) s = (ns, s')"
    by (cases "sendAlert_loop \<lparr>payload = a, message = formatAlertMessage a\<rparr> 0 (notifiers s) s")
  from sendAlert_loop_frame[OF d] d show ?thesis by (simp add: sendAlert_def)
qed

section \<open>The loop body of processPriceUpdate, case by case\<close>

lemma checkAlert_active:
  "status a = Active \<Longrightarrow> snd (checkAlert a p) = a\<lparr>lastPrice := Some p\<rparr>"
  by (simp add: checkAlert_def Let_def)

lemma checkAlert_inactive: "status a \<noteq> Active \<Longrightarrow> checkAlert a p = (False, a)"
  by (simp add: checkAlert_def)

lemma cross_check:
  "status b = Active \<Longrightarrow> atype b = Cross \<Longrightarrow>
     fst (checkAlert b p) \<longleftrightarrow> (lastBelow b \<and> price b \<le> p) \<or> (lastAbove b \<and> p \<le> price b)"
  by (simp add: checkAlert_def Let_def)

lemma inCooldown_iff:
  "inCooldown s k \<longleftrightarrow> (\<exists>t. lastAlertTimes s k = Some t \<and> t \<noteq> 0 \<and> now s - t < cooldown s)"
  by (simp add: inCooldown_def split: option.splits)

lemma inCooldown_alerts [simp]: "inCooldown (s\<lparr>alerts := m\<rparr>) k = inCooldown s k"
  by (simp add: inCooldown_def split: option.splits)

lemma not_inCooldown_later:
  assumes "\<not> inCooldown s key" and "lastAlertTimes s' key = lastAlertTimes s key"
    and "cooldown s' = cooldown s" and "now s \<le> now s'"
  shows "\<not> inCooldown s' key"
  using assms by (auto simp add: inCooldown_iff)

lemma inCooldown_now_later:
  "\<not> inCooldown s key \<Longrightarrow> \<not> inCooldown (s\<lparr>now := now s + int d\<rparr>) key"
  by (rule not_inCooldown_later[of s]) simp_all

lemma alertKey_lastPrice [simp]: "alertKey (a\<lparr>lastPrice := l\<rparr>) = alertKey a"
  by (simp add: alertKey_def)

lemma alertKey_firedAlert [simp]: "alertKey (firedAlert a p t) = alertKey a"
  by (simp add: alertKey_def firedAlert_def)

lemma alertKey_status [simp]: "alertKey (a\<lparr>status := st\<rparr>) = alertKey a"
  by (simp add: alertKey_def)

lemma body_None: "mapGet k (alerts s) = None \<Longrightarrow> processPriceUpdate_body k p s = s"
  by (simp add: processPriceUpdate_body_def)

lemma body_inactive:
  "mapGet k (alerts s) = Some a \<Longrightarrow> status a \<noteq> Active \<Longrightarrow> processPriceUpdate_body k p s = s"
  by (simp add: processPriceUpdate_body_def checkAlert_inactive mapModify_same)

lemma body_quiet:
  assumes "mapGet k (alerts s) = Some a" "status a = Active"
    and "\<not> fst (checkAlert a p) \<or> inCooldown s (alertKey a)"
  shows "processPriceUpdate_body k p s =
           s\<lparr>alerts := mapModify k (\<lambda>_. a\<lparr>lastPrice := Some p\<rparr>) (alerts s)\<rparr>"
proof -
  obtain f a1 where c: "checkAlert a p = (f, a1)" by (cases "checkAlert a p")
  with assms(2) have a1: "a1 = a\<lparr>lastPrice := Some p\<rparr>" using checkAlert_active[of a p] by simp
  from assms(3) c have "\<not> f \<or> inCooldown s (alertKey a)" by simp
  then show ?thesis
    using assms(1) c by (auto simp add: processPriceUpdate_body_def a1 Let_def)
qed

lemma body_fire:
  assumes "mapGet k (alerts s) = Some a" "status a = Active"
    and "fst (checkAlert a p)" "\<not> inCooldown s (alertKey a)"
  shows "processPriceUpdate_body k p s =
           (sendAlert (firedAlert a p (now s))
              (s\<lparr>alerts := mapModify k (\<lambda>_. firedAlert a p (now s)) (alerts s),
                 lastAlertTimes := (lastAlertTimes s)(alertKey a \<mapsto> now s),
                 alertHistory := pushHistory (alertHistory s) (firedAlert a p (now s)),
                 emitted := emitted s @ [AlertTriggered (firedAlert a p (now s))]\<rparr>))
           \<lparr>alerts := mapModify k
              (\<lambda>_. if repeat a then (firedAlert a p (now s))\<lparr>status := Active\<rparr>
                    else firedAlert a p (now s)) (alerts s)\<rparr>"
proof -
  obtain f a1 where c: "checkAlert a p = (f, a1)" by (cases "checkAlert a p")
  with assms(2) have a1: "a1 = a\<lparr>lastPrice := Some p\<rparr>" using checkAlert_active[of a p] by simp
  from assms(3) c have f: "f" by simp
  have fa: "a\<lparr>lastPrice := Some p, status := Triggered, triggeredAt := Some (now s),
              triggeredPrice := Some p\<rparr> = firedAlert a p (now s)"
    by (simp add: firedAlert_def)
  have rp: "repeat (firedAlert a p (now s)) = repeat a" by (simp add: firedAlert_def)
  show ?thesis
    using assms(1,4) c f
    by (simp add: processPriceUpdate_body_def a1 Let_def fa rp mapModify_twice sendAlert_frame)
qed

lemma body_not_fires:
  assumes "\<not> fires k p s"
  shows "processPriceUpdate_body k p s =
           s\<lparr>alerts := mapModify k
              (\<lambda>a. if status a = Active then a\<lparr>lastPrice := Some p\<rparr> else a) (alerts s)\<rparr>"
proof (cases "mapGet k (alerts s)")
  case None
  then show ?thesis by (simp add: body_None mapModify_absent)
next
  case (Some a)
  have m: "mapModify k (\<lambda>a. if status a = Active then a\<lparr>lastPrice := Some p\<rparr> else a) (alerts s) =
           mapModify k (\<lambda>_. if status a = Active then a\<lparr>lastPrice := Some p\<rparr> else a) (alerts s)"
    by (rule mapModify_const[OF Some])
  show ?thesis
  proof (cases "status a = Active")
    case True
    with assms Some have "\<not> fst (checkAlert a p) \<or> inCooldown s (alertKey a)"
      by (simp add: fires_def)
    from body_quiet[OF Some True this] True show ?thesis
      unfolding m by simp
  next
    case False
    with Some show ?thesis
      unfolding m by (simp add: body_inactive mapModify_same)
  qed
qed

lemma body_fires:
  assumes "fires k p s" and "mapGet k (alerts s) = Some a"
  shows "emitted (processPriceUpdate_body k p s) =
           emitted s @ [AlertTriggered (firedAlert a p (now s))]"
    and "alertHistory (processPriceUpdate_body k p s) =
           pushHistory (alertHistory s) (firedAlert a p (now s))"
    and "sends (processPriceUpdate_body k p s) =
           sends s @ dispatchCycle (length (notifiers s)) (firedAlert a p (now s))"
    and "lastAlertTimes (processPriceUpdate_body k p s) = (lastAlertTimes s)(alertKey a \<mapsto> now s)"
    and "alerts (processPriceUpdate_body k p s) =
           mapModify k (\<lambda>_. if repeat a then (firedAlert a p (now s))\<lparr>status := Active\<rparr>
                             else firedAlert a p (now s)) (alerts s)"
    and "now s \<le> now (processPriceUpdate_body k p s)"
proof -
  from assms have h: "status a = Active" "fst (checkAlert a p)" "\<not> inCooldown s (alertKey a)"
    by (simp_all add: fires_def)
  note b = body_fire[OF assms(2) h]
  show "emitted (processPriceUpdate_body k p s) =
           emitted s @ [AlertTriggered (firedAlert a p (now s))]"
    unfolding b by (simp add: sendAlert_frame)
  show "alertHistory (processPriceUpdate_body k p s) =
           pushHistory (alertHistory s) (firedAlert a p (now s))"
    unfolding b by (simp add: sendAlert_frame)
  show "sends (processPriceUpdate_body k p s) =
           sends s @ dispatchCycle (length (notifiers s)) (firedAlert a p (now s))"
    unfolding b by (simp add: sendAlert_frame dispatchCycle_def)
  show "lastAlertTimes (processPriceUpdate_body k p s) = (lastAlertTimes s)(alertKey a \<mapsto> now s)"
    unfolding b by (simp add: sendAlert_frame)
  show "alerts (processPriceUpdate_body k p s) =
           mapModify k (\<lambda>_. if repeat a then (firedAlert a p (now s))\<lparr>status := Active\<rparr>
                             else firedAlert a p (now s)) (alerts s)"
    unfolding b by simp
  have "now s \<le> now (sendAlert (firedAlert a p (now s))
              (s\<lparr>alerts := mapModify k (\<lambda>_. firedAlert a p (now s)) (alerts s),
                 lastAlertTimes := (lastAlertTimes s)(alertKey a \<mapsto> now s),
                 alertHistory := pushHistory (alertHistory s) (firedAlert a p (now s)),
                 emitted := emitted s @ [AlertTriggered (firedAlert a p (now s))]\<rparr>))"
    using sendAlert_frame[of "firedAlert a p (now s)" "s\<lparr>alerts := mapModify k (\<lambda>_. firedAlert a p (now s)) (alerts s),
                 lastAlertTimes := (lastAlertTimes s)(alertKey a \<mapsto> now s),
                 alertHistory := pushHistory (alertHistory s) (firedAlert a p (now s)),
                 emitted := emitted s @ [AlertTriggered (firedAlert a p (now s))]\<rparr>"] by simp
  then show "now s \<le> now (processPriceUpdate_body k p s)"
    unfolding b by simp
qed

lemma body_frame:
  "maxAlerts (processPriceUpdate_body k p s) = maxAlerts s"
  "cooldown (processPriceUpdate_body k p s) = cooldown s"
  "hasLogger (processPriceUpdate_body k p s) = hasLogger s"
  "length (notifiers (processPriceUpdate_body k p s)) = length (notifiers s)"
  "map fst (alerts (processPriceUpdate_body k p s)) = map fst (alerts s)"
  "now s \<le> now (processPriceUpdate_body k p s)"
proof -
  have "maxAlerts (processPriceUpdate_body k p s) = maxAlerts s \<and>
    cooldown (processPriceUpdate_body k p s) = cooldown s \<and>
    hasLogger (processPriceUpdate_body k p s) = hasLogger s \<and>
    length (notifiers (processPriceUpdate_body k p s)) = length (notifiers s) \<and>
    map fst (alerts (processPriceUpdate_body k p s)) = map fst (alerts s) \<and>
    now s \<le> now (processPriceUpdate_body k p s)"
  proof (cases "fires k p s")
    case False
    show ?thesis unfolding body_not_fires[OF False] by (simp add: keys_mapModify)
  next
    case True
    then obtain a where a: "mapGet k (alerts s) = Some a"
      by (auto simp add: fires_def split: option.splits)
    from True a have h: "status a = Active" "fst (checkAlert a p)" "\<not> inCooldown s (alertKey a)"
      by (simp_all add: fires_def)
    show ?thesis
      using body_fires(6)[OF True a]
      unfolding body_fire[OF a h] by (simp add: sendAlert_frame keys_mapModify)
  qed
  then show "maxAlerts (processPriceUpdate_body k p s) = maxAlerts s"
  "cooldown (processPriceUpdate_body k p s) = cooldown s"
  "hasLogger (processPriceUpdate_body k p s) = hasLogger s"
  "length (notifiers (processPriceUpdate_body k p s)) = length (notifiers s)"
  "map fst (alerts (processPriceUpdate_body k p s)) = map fst (alerts s)"
  "now s \<le> now (processPriceUpdate_body k p s)" by simp_all
qed

lemma fires_Above:
  assumes "mapGet k (alerts s) = Some a" "status a = Active" "\<not> inCooldown s (alertKey a)"
    and "atype a = Above"
  shows "fires k p s \<longleftrightarrow> price a \<le> p"
  using assms by (simp add: fires_def checkAlert_def Let_def)

lemma fires_Below:
  assumes "mapGet k (alerts s) = Some a" "status a = Active" "\<not> inCooldown s (alertKey a)"
    and "atype a = Below"
  shows "fires k p s \<longleftrightarrow> p \<le> price a"
  using assms by (simp add: fires_def checkAlert_def Let_def)

lemma triggeredAlerts_append:
  "triggeredAlerts (xs @ ys) = triggeredAlerts xs @ triggeredAlerts ys"
  by (induction xs rule: triggeredAlerts.induct) auto

lemma triggeredAlerts_map: "triggeredAlerts (map AlertTriggered fired) = fired"
  by (induction fired) simp_all

lemma triggeredOn_emitted:
  "emitted s' = emitted s @ map AlertTriggered fired \<Longrightarrow>
     triggeredOn key s' = triggeredOn key s @ filter (\<lambda>a. alertKey a = key) fired"
  by (simp add: triggeredOn_def triggeredAlerts_append triggeredAlerts_map)

lemma triggeredOn_now [simp]: "triggeredOn key (s\<lparr>now := t\<rparr>) = triggeredOn key s"
  by (simp add: triggeredOn_def)

lemma body_other_key:
  assumes "mapGet k (alerts s) = Some a" and "alertKey a \<noteq> key"
  shows "triggeredOn key (processPriceUpdate_body k p s) = triggeredOn key s \<and>
         lastAlertTimes (processPriceUpdate_body k p s) key = lastAlertTimes s key"
proof (cases "fires k p s")
  case True
  from body_fires(1,4)[OF True assms(1)] assms(2) show ?thesis
    by (simp add: triggeredOn_def triggeredAlerts_append)
next
  case False
  show ?thesis unfolding body_not_fires[OF False] by (simp add: triggeredOn_def)
qed

lemma body_silent:
  assumes "\<not> fires k p s"
  shows "triggeredOn key (processPriceUpdate_body k p s) = triggeredOn key s \<and>
         lastAlertTimes (processPriceUpdate_body k p s) = lastAlertTimes s \<and>
         now (processPriceUpdate_body k p s) = now s"
  unfolding body_not_fires[OF assms] by (simp add: triggeredOn_def)

lemma body_at_other: "j \<noteq> k \<Longrightarrow>
  mapGet j (alerts (processPriceUpdate_body k p s)) = mapGet j (alerts s)"
proof (cases "fires k p s")
  case True
  assume "j \<noteq> k"
  from True obtain a where a: "mapGet k (alerts s) = Some a"
    by (auto simp add: fires_def split: option.splits)
  from body_fires(5)[OF True a] \<open>j \<noteq> k\<close> show ?thesis by (simp add: mapGet_mapModify)
next
  case False
  assume "j \<noteq> k"
  then show ?thesis unfolding body_not_fires[OF False] by (simp add: mapGet_mapModify)
qed

lemma keysOf_now [simp]: "keysOf (s\<lparr>now := t\<rparr>) = keysOf s"
  by (simp add: keysOf_def)

lemma keysOf_mem: "(j, b) \<in> set (alerts s) \<Longrightarrow> (j, alertKey b) \<in> set (keysOf s)"
  by (force simp add: keysOf_def)

lemma keysOf_body: "keysOf (processPriceUpdate_body k p s) = keysOf s"
proof (cases "fires k p s")
  case True
  then obtain a where a: "mapGet k (alerts s) = Some a"
    by (auto simp add: fires_def split: option.splits)
  have "alertKey (if repeat a then (firedAlert a p (now s))\<lparr>status := Active\<rparr>
                  else firedAlert a p (now s)) = alertKey a"
    by simp
  from keys_mapModify_at[OF a this] show ?thesis
    by (simp add: keysOf_def body_fires(5)[OF True a])
next
  case False
  have "alertKey (if status b = Active then b\<lparr>lastPrice := Some p\<rparr> else b) = alertKey b" for b
    by simp
  then show ?thesis
    unfolding body_not_fires[OF False] keysOf_def
    by (simp add: keys_mapModify_same[where g = alertKey])
qed

section \<open>The loop of a price update\<close>

lemma loop_append:
  "processPriceUpdate_loop (xs @ ys) p s =
     processPriceUpdate_loop ys p (processPriceUpdate_loop xs p s)"
  by (induction xs arbitrary: s) simp_all

lemma loop_frame:
  "maxAlerts (processPriceUpdate_loop ks p s) = maxAlerts s \<and>
   cooldown (processPriceUpdate_loop ks p s) = cooldown s \<and>
   hasLogger (processPriceUpdate_loop ks p s) = hasLogger s \<and>
   length (notifiers (processPriceUpdate_loop ks p s)) = length (notifiers s) \<and>
   map fst (alerts (processPriceUpdate_loop ks p s)) = map fst (alerts s) \<and>
   now s \<le> now (processPriceUpdate_loop ks p s)"
proof (induction ks arbitrary: s)
  case Nil
  then show ?case by simp
next
  case (Cons k ks)
  from Cons.IH[of "processPriceUpdate_body k p s"] body_frame[where k=k and p=p and s=s]
  show ?case by simp
qed

text \<open>What a loop does to the traces: the alerts that fired, in order.\<close>

lemma loop_trace:
  "\<exists>fired. emitted (processPriceUpdate_loop ks p s) = emitted s @ map AlertTriggered fired \<and>
           alertHistory (processPriceUpdate_loop ks p s) = foldl pushHistory (alertHistory s) fired \<and>
           sends (processPriceUpdate_loop ks p s) =
             sends s @ concat (map (dispatchCycle (length (notifiers s))) fired)"
proof (induction ks arbitrary: s)
  case Nil
  show ?case by (rule exI[of _ "[]"]) simp
next
  case (Cons k ks)
  define s1 where "s1 = processPriceUpdate_body k p s"
  from Cons.IH[of s1] obtain fired where
    f: "emitted (processPriceUpdate_loop ks p s1) = emitted s1 @ map AlertTriggered fired"
       "alertHistory (processPriceUpdate_loop ks p s1) = foldl pushHistory (alertHistory s1) fired"
       "sends (processPriceUpdate_loop ks p s1) =
             sends s1 @ concat (map (dispatchCycle (length (notifiers s1))) fired)"
    by blast
  have n: "length (notifiers s1) = length (notifiers s)" unfolding s1_def by (rule body_frame(4))
  show ?case
  proof (cases "fires k p s")
    case False
    have "emitted s1 = emitted s" "alertHistory s1 = alertHistory s" "sends s1 = sends s"
      unfolding s1_def body_not_fires[OF False] by simp_all
    with f n show ?thesis by (intro exI[of _ fired]) (simp add: s1_def)
  next
    case True
    then obtain a where a: "mapGet k (alerts s) = Some a"
      by (auto simp add: fires_def split: option.splits)
    note b = body_fires[OF True a, folded s1_def]
    from f n b(1,2,3) show ?thesis
      by (intro exI[of _ "firedAlert a p (now s) # fired"]) (simp add: s1_def)
  qed
qed

lemma keysOf_loop: "keysOf (processPriceUpdate_loop ks p s) = keysOf s"
  by (induction ks arbitrary: s) (simp_all add: keysOf_body)

lemma keysOf_update: "keysOf (processPriceUpdate smb p s) = keysOf s"
  by (simp add: processPriceUpdate_def keysOf_loop)

lemma update_frame:
  "cooldown (processPriceUpdate smb p s) = cooldown s \<and>
   length (notifiers (processPriceUpdate smb p s)) = length (notifiers s) \<and>
   map fst (alerts (processPriceUpdate smb p s)) = map fst (alerts s) \<and>
   now s \<le> now (processPriceUpdate smb p s)"
  unfolding processPriceUpdate_def using loop_frame by blast

text \<open>While the key is in cooldown, until the end of the loop, nothing fires on it.\<close>

lemma loop_blocked:
  assumes "lastAlertTimes s key = Some t" and "t \<noteq> 0"
    and "now (processPriceUpdate_loop ks p s) - t < cooldown s"
  shows "triggeredOn key (processPriceUpdate_loop ks p s) = triggeredOn key s \<and>
         lastAlertTimes (processPriceUpdate_loop ks p s) key = Some t"
  using assms
proof (induction ks arbitrary: s)
  case Nil
  then show ?case by simp
next
  case (Cons k ks)
  define s1 where "s1 = processPriceUpdate_body k p s"
  have cd: "cooldown s1 = cooldown s" unfolding s1_def by (rule body_frame(2))
  have "now s \<le> now s1" unfolding s1_def by (rule body_frame(6))
  moreover have "now s1 \<le> now (processPriceUpdate_loop ks p s1)" using loop_frame by blast
  ultimately have "now s - t < cooldown s" using Cons.prems(3) by (simp add: s1_def[symmetric])
  with Cons.prems(1,2) have ic: "inCooldown s key" by (simp add: inCooldown_iff)
  have keep: "triggeredOn key s1 = triggeredOn key s \<and> lastAlertTimes s1 key = lastAlertTimes s key"
  proof (cases "mapGet k (alerts s)")
    case None
    then show ?thesis by (simp add: s1_def body_None)
  next
    case (Some a)
    show ?thesis
    proof (cases "alertKey a = key")
      case True
      with ic Some have "\<not> fires k p s" by (simp add: fires_def)
      from body_silent[OF this] show ?thesis by (simp add: s1_def)
    next
      case False
      from body_other_key[OF Some False] show ?thesis by (simp add: s1_def)
    qed
  qed
  with Cons.prems(1) have l: "lastAlertTimes s1 key = Some t" by simp
  have fin: "processPriceUpdate_loop (k # ks) p s = processPriceUpdate_loop ks p s1"
    by (simp add: s1_def)
  from Cons.prems(3) have w: "now (processPriceUpdate_loop ks p s1) - t < cooldown s1"
    unfolding fin by (simp add: cd)
  from Cons.IH[OF l Cons.prems(2) w] keep show ?case unfolding fin by simp
qed

text \<open>
  When the key is not in cooldown and the loop comes to an alert on it whose condition
  holds, exactly one alert fires on the key before the loop ends.
\<close>

lemma loop_fires_once:
  assumes "\<not> inCooldown s key" and "0 < now s"
    and "now (processPriceUpdate_loop ks p s) - now s < cooldown s"
    and "k \<in> set ks" and "mapGet k (alerts s) = Some a" and "alertKey a = key"
    and "status a = Active" and "fst (checkAlert a p)"
  shows "\<exists>e t. triggeredOn key (processPriceUpdate_loop ks p s) = triggeredOn key s @ [e] \<and>
               lastAlertTimes (processPriceUpdate_loop ks p s) key = Some t \<and> now s \<le> t"
  using assms
proof (induction ks arbitrary: s)
  case Nil
  then show ?case by simp
next
  case (Cons j ks)
  define s1 where "s1 = processPriceUpdate_body j p s"
  have cd: "cooldown s1 = cooldown s" unfolding s1_def by (rule body_frame(2))
  have m1: "now s \<le> now s1" unfolding s1_def by (rule body_frame(6))
  have fin: "processPriceUpdate_loop (j # ks) p s = processPriceUpdate_loop ks p s1"
    by (simp add: s1_def)
  show ?case
  proof (cases "fires j p s \<and> (\<exists>b. mapGet j (alerts s) = Some b \<and> alertKey b = key)")
    case True
    then obtain b where b: "mapGet j (alerts s) = Some b" "alertKey b = key" and f: "fires j p s"
      by blast
    from body_fires(1,4)[OF f b(1)] b(2)
    have e: "triggeredOn key s1 = triggeredOn key s @ [firedAlert b p (now s)]"
      and l: "lastAlertTimes s1 key = Some (now s)"
      by (simp_all add: s1_def triggeredOn_def triggeredAlerts_append)
    from Cons.prems(2) have nz: "now s \<noteq> 0" by simp
    from Cons.prems(3) have w: "now (processPriceUpdate_loop ks p s1) - now s < cooldown s1"
      unfolding fin by (simp add: cd)
    from loop_blocked[OF l nz w] e show ?thesis unfolding fin by auto
  next
    case False
    have keep: "triggeredOn key s1 = triggeredOn key s \<and> lastAlertTimes s1 key = lastAlertTimes s key"
    proof (cases "fires j p s")
      case nf: False
      from body_silent[OF nf] show ?thesis by (simp add: s1_def)
    next
      case t: True
      then obtain b where b: "mapGet j (alerts s) = Some b"
        by (auto simp add: fires_def split: option.splits)
      with False t have "alertKey b \<noteq> key" by simp
      from body_other_key[OF b this] show ?thesis by (simp add: s1_def)
    qed
    have jk: "j \<noteq> k"
    proof
      assume "j = k"
      with Cons.prems(1,5,6,7,8) have "fires j p s" by (simp add: fires_def)
      with False \<open>j = k\<close> Cons.prems(5,6) show False by simp
    qed
    with Cons.prems(4) have k: "k \<in> set ks" by simp
    from jk have g: "mapGet k (alerts s1) = Some a"
      using body_at_other[of k j p s] Cons.prems(5) by (simp add: s1_def)
    from keep cd m1 Cons.prems(1) have nc: "\<not> inCooldown s1 key"
      by (intro not_inCooldown_later[of s key s1]) simp_all
    from Cons.prems(2) m1 have pos: "0 < now s1" by simp
    from Cons.prems(3) m1 have w: "now (processPriceUpdate_loop ks p s1) - now s1 < cooldown s1"
      unfolding fin by (simp add: cd)
    from Cons.IH[OF nc pos w k g Cons.prems(6,7,8)] keep m1 show ?thesis
      unfolding fin by auto
  qed
qed

text \<open>The turns of the loop for other alerts leave the alert and its key alone.\<close>

lemma loop_others:
  assumes "\<forall>(j, c) \<in> set (keysOf s). j \<noteq> k \<longrightarrow> c \<noteq> key" and "k \<notin> set ks"
  shows "mapGet k (alerts (processPriceUpdate_loop ks p s)) = mapGet k (alerts s) \<and>
         triggeredOn key (processPriceUpdate_loop ks p s) = triggeredOn key s \<and>
         lastAlertTimes (processPriceUpdate_loop ks p s) key = lastAlertTimes s key"
  using assms
proof (induction ks arbitrary: s)
  case Nil
  then show ?case by simp
next
  case (Cons j ks)
  define s1 where "s1 = processPriceUpdate_body j p s"
  from Cons.prems(2) have jk: "j \<noteq> k" and ks: "k \<notin> set ks" by auto
  have o1: "\<forall>(j, c) \<in> set (keysOf s1). j \<noteq> k \<longrightarrow> c \<noteq> key"
    using Cons.prems(1) by (simp add: s1_def keysOf_body)
  have g: "mapGet k (alerts s1) = mapGet k (alerts s)"
    unfolding s1_def using jk by (intro body_at_other) simp
  have keep: "triggeredOn key s1 = triggeredOn key s \<and> lastAlertTimes s1 key = lastAlertTimes s key"
  proof (cases "mapGet j (alerts s)")
    case None
    then show ?thesis by (simp add: s1_def body_None)
  next
    case (Some b)
    from mapGet_Some_mem[OF Some] have "(j, alertKey b) \<in> set (keysOf s)" by (rule keysOf_mem)
    with Cons.prems(1) jk have "alertKey b \<noteq> key" by blast
    from body_other_key[OF Some this] show ?thesis by (simp add: s1_def)
  qed
  from Cons.IH[OF o1 ks] g keep show ?case by (simp add: s1_def)
qed

text \<open>
  An update, seen from one alert that is alone on its key: either the alert is not
  selected and nothing happens to it, or the loop body runs on it once, in a state
  that is later than the start but the same for the alert and its key.
\<close>

lemma update_alert:
  assumes d: "distinct (map fst (alerts s))" and g: "mapGet k (alerts s) = Some b"
    and o: "\<forall>(j, c) \<in> set (keysOf s). j \<noteq> k \<longrightarrow> c \<noteq> key"
  shows "(\<not> selects (activeOn smb) b \<longrightarrow>
            mapGet k (alerts (processPriceUpdate smb p s)) = Some b \<and>
            triggeredOn key (processPriceUpdate smb p s) = triggeredOn key s \<and>
            lastAlertTimes (processPriceUpdate smb p s) key = lastAlertTimes s key) \<and>
         (selects (activeOn smb) b \<longrightarrow>
            (\<exists>s0. mapGet k (alerts s0) = Some b \<and> lastAlertTimes s0 key = lastAlertTimes s key \<and>
                  cooldown s0 = cooldown s \<and> now s \<le> now s0 \<and>
                  triggeredOn key s0 = triggeredOn key s \<and>
                  mapGet k (alerts (processPriceUpdate smb p s)) =
                    mapGet k (alerts (processPriceUpdate_body k p s0)) \<and>
                  triggeredOn key (processPriceUpdate smb p s) =
                    triggeredOn key (processPriceUpdate_body k p s0) \<and>
                  lastAlertTimes (processPriceUpdate smb p s) key =
                    lastAlertTimes (processPriceUpdate_body k p s0) key))"
proof (intro conjI impI)
  assume n: "\<not> selects (activeOn smb) b"
  from unselected_absent[OF d g, of "selects (activeOn smb)"] n
  have "k \<notin> set (map fst (filter (\<lambda>(k, a). selects (activeOn smb) a) (alerts s)))" by simp
  from loop_others[OF o this, of p] g
  show "mapGet k (alerts (processPriceUpdate smb p s)) = Some b"
    "triggeredOn key (processPriceUpdate smb p s) = triggeredOn key s"
    "lastAlertTimes (processPriceUpdate smb p s) key = lastAlertTimes s key"
    by (simp_all add: processPriceUpdate_def)
next
  assume y: "selects (activeOn smb) b"
  from selected_split[OF d g, of "selects (activeOn smb)"] y obtain pre post where
    sp: "map fst (filter (\<lambda>(k, a). selects (activeOn smb) a) (alerts s)) = pre @ k # post"
    and pre: "k \<notin> set pre" and post: "k \<notin> set post"
    by blast
  define s0 where "s0 = processPriceUpdate_loop pre p s"
  define s1 where "s1 = processPriceUpdate_body k p s0"
  have fin: "processPriceUpdate smb p s = processPriceUpdate_loop post p s1"
    by (simp add: processPriceUpdate_def sp loop_append s0_def s1_def)
  note a0 = loop_others[OF o pre, of p, folded s0_def]
  have o1: "\<forall>(j, c) \<in> set (keysOf s1). j \<noteq> k \<longrightarrow> c \<noteq> key"
    using o by (simp add: s1_def s0_def keysOf_body keysOf_loop)
  note a1 = loop_others[OF o1 post, of p, folded fin]
  have fr: "cooldown s0 = cooldown s" "now s \<le> now s0"
    unfolding s0_def using loop_frame[of pre p s] by simp_all
  show "\<exists>s0. mapGet k (alerts s0) = Some b \<and> lastAlertTimes s0 key = lastAlertTimes s key \<and>
                  cooldown s0 = cooldown s \<and> now s \<le> now s0 \<and>
                  triggeredOn key s0 = triggeredOn key s \<and>
                  mapGet k (alerts (processPriceUpdate smb p s)) =
                    mapGet k (alerts (processPriceUpdate_body k p s0)) \<and>
                  triggeredOn key (processPriceUpdate smb p s) =
                    triggeredOn key (processPriceUpdate_body k p s0) \<and>
                  lastAlertTimes (processPriceUpdate smb p s) key =
                    lastAlertTimes (processPriceUpdate_body k p s0) key"
    using a0 a1 fr g by (intro exI[of _ s0]) (simp add: s1_def)
qed

text \<open>A loop over keys none of which holds an alert on the key leaves the key alone.\<close>

lemma loop_apart:
  assumes "\<forall>(j, c) \<in> set (keysOf s). j \<in> set ks \<longrightarrow> c \<noteq> key"
  shows "triggeredOn key (processPriceUpdate_loop ks p s) = triggeredOn key s \<and>
         lastAlertTimes (processPriceUpdate_loop ks p s) key = lastAlertTimes s key"
  using assms
proof (induction ks arbitrary: s)
  case Nil
  then show ?case by simp
next
  case (Cons j ks)
  define s1 where "s1 = processPriceUpdate_body j p s"
  have o1: "\<forall>(j, c) \<in> set (keysOf s1). j \<in> set ks \<longrightarrow> c \<noteq> key"
    using Cons.prems by (auto simp add: s1_def keysOf_body)
  have keep: "triggeredOn key s1 = triggeredOn key s \<and> lastAlertTimes s1 key = lastAlertTimes s key"
  proof (cases "mapGet j (alerts s)")
    case None
    then show ?thesis by (simp add: s1_def body_None)
  next
    case (Some b)
    from mapGet_Some_mem[OF Some] have "(j, alertKey b) \<in> set (keysOf s)" by (rule keysOf_mem)
    with Cons.prems have "alertKey b \<noteq> key" by auto
    from body_other_key[OF Some this] show ?thesis by (simp add: s1_def)
  qed
  from Cons.IH[OF o1] keep show ?case by (simp add: s1_def)
qed

lemma loop_at_other:
  "k \<notin> set ks \<Longrightarrow> mapGet k (alerts (processPriceUpdate_loop ks p s)) = mapGet k (alerts s)"
  by (induction ks arbitrary: s) (simp_all add: body_at_other)

text \<open>When no alert on the key can have its condition met, nothing fires on the key.\<close>

lemma loop_no_match:
  assumes "\<forall>b. alertKey b = key \<longrightarrow> \<not> fst (checkAlert b p)"
  shows "triggeredOn key (processPriceUpdate_loop ks p s) = triggeredOn key s"
proof (induction ks arbitrary: s)
  case Nil
  then show ?case by simp
next
  case (Cons j ks)
  have "triggeredOn key (processPriceUpdate_body j p s) = triggeredOn key s"
  proof (cases "fires j p s")
    case False
    from body_silent[OF False] show ?thesis by simp
  next
    case True
    then obtain b where b: "mapGet j (alerts s) = Some b" "fst (checkAlert b p)"
      by (auto simp add: fires_def split: option.splits)
    with assms have "alertKey b \<noteq> key" by blast
    from body_other_key[OF b(1) this] show ?thesis by simp
  qed
  with Cons.IH[of "processPriceUpdate_body j p s"] show ?case by simp
qed

section \<open>The history, and the reachable states\<close>

lemma pushHistory_length: "length h \<le> 100 \<Longrightarrow> length (pushHistory h e) \<le> 100"
  by (simp add: pushHistory_def Let_def)

lemma pushHistory_not_full: "length h < 100 \<Longrightarrow> pushHistory h e = h @ [e]"
  by (simp add: pushHistory_def Let_def)

lemma pushHistory_full: "length h = 100 \<Longrightarrow> pushHistory h e = tl h @ [e]"
  by (cases h) (simp_all add: pushHistory_def Let_def)

lemma foldl_pushHistory_length:
  "length h \<le> 100 \<Longrightarrow> length (foldl pushHistory h es) \<le> 100"
  by (induction es arbitrary: h) (simp_all add: pushHistory_length)

lemma foldl_pushHistory_append:
  "foldl pushHistory h (xs @ ys) = foldl pushHistory (foldl pushHistory h xs) ys"
  by simp

lemma alertIdOf_nonempty: "uuid \<noteq> [] \<Longrightarrow> alertIdOf c uuid \<noteq> []"
  by (simp add: alertIdOf_def split: option.splits)

lemma reachable_storeOk: "reachable s \<Longrightarrow> storeOk s"
proof (induction rule: reachable.induct)
  case (r_new cfg t)
  show ?case by (simp add: storeOk_def AlertManager_def)
next
  case (r_addNotifier s n)
  then show ?case by (simp add: storeOk_def addNotifier_def)
next
  case (r_addAlert s uuid c)
  then show ?case
    using alertIdOf_nonempty[of uuid c]
    by (auto simp add: storeOk_def addAlert_def Let_def distinct_mapSet set_keys_mapSet)
next
  case (r_removeAlert s k)
  then show ?case
    by (auto simp add: storeOk_def removeAlert_def distinct_mapDelete set_keys_mapDelete
        split: option.splits)
next
  case (r_processPriceUpdate s smb p)
  obtain fired where "alertHistory (processPriceUpdate smb p s) = foldl pushHistory (alertHistory s) fired"
    unfolding processPriceUpdate_def using loop_trace by blast
  moreover have "map fst (alerts (processPriceUpdate smb p s)) = map fst (alerts s)"
    unfolding processPriceUpdate_def using loop_frame by blast
  moreover from this have "fst ` set (alerts (processPriceUpdate smb p s)) = fst ` set (alerts s)"
    by (metis list.set_map)
  ultimately show ?case using r_processPriceUpdate.IH
    by (simp add: storeOk_def foldl_pushHistory_length)
next
  case (r_clearTriggered s)
  then have d: "distinct (map fst (alerts s))" by (simp add: storeOk_def)
  from foldl_mapDelete_keys[OF d] r_clearTriggered.IH
  show ?case by (auto simp add: storeOk_def clearTriggered_def Let_def)
next
  case (r_elapse s d)
  then show ?case by (simp add: storeOk_def)
qed

text \<open>The history after a run of pushes: the last 100 of all the entries.\<close>

lemma foldl_pushHistory_drop:
  "length h \<le> 100 \<Longrightarrow>
     foldl pushHistory h es = drop (length (h @ es) - 100) (h @ es)"
proof (induction es arbitrary: h)
  case Nil
  then show ?case by simp
next
  case (Cons e es)
  show ?case
  proof (cases "length h < 100")
    case True
    then have p: "pushHistory h e = h @ [e]" by (rule pushHistory_not_full)
    from True have "length (h @ [e]) \<le> 100" by simp
    from Cons.IH[OF this] show ?thesis by (simp add: p)
  next
    case False
    with Cons.prems have l: "length h = 100" by simp
    then have p: "pushHistory h e = tl h @ [e]" by (rule pushHistory_full)
    from l have l': "length (tl h @ [e]) \<le> 100" by simp
    from l obtain x h' where h: "h = x # h'" by (cases h) auto
    from p h have p': "pushHistory (x # h') e = h' @ [e]" by simp
    from Cons.IH[OF l'] l show ?thesis by (simp add: p' h)
  qed
qed

section \<open>Sequences of price updates\<close>

lemma run_frame:
  "cooldown (priceUpdates smb ups s) = cooldown s \<and>
   length (notifiers (priceUpdates smb ups s)) = length (notifiers s) \<and>
   map fst (alerts (priceUpdates smb ups s)) = map fst (alerts s) \<and>
   now s \<le> now (priceUpdates smb ups s)"
proof (induction ups arbitrary: s)
  case Nil
  then show ?case by simp
next
  case (Cons u ups)
  obtain d p where u: "u = (d, p)" by (cases u)
  from Cons.IH[of "processPriceUpdate smb p (s\<lparr>now := now s + int d\<rparr>)"]
    update_frame[of smb p "s\<lparr>now := now s + int d\<rparr>"]
  show ?case by (simp add: u)
qed

lemma run_append:
  "priceUpdates smb (xs @ ys) s = priceUpdates smb ys (priceUpdates smb xs s)"
  by (induction xs arbitrary: s) auto

lemma run_blocked:
  assumes "lastAlertTimes s key = Some t" and "t \<noteq> 0"
    and "now (priceUpdates smb ups s) - t < cooldown s"
  shows "triggeredOn key (priceUpdates smb ups s) = triggeredOn key s \<and>
         lastAlertTimes (priceUpdates smb ups s) key = Some t"
  using assms
proof (induction ups arbitrary: s)
  case Nil
  then show ?case by simp
next
  case (Cons u ups)
  obtain d p where u: "u = (d, p)" by (cases u)
  define s0 where "s0 = s\<lparr>now := now s + int d\<rparr>"
  define s1 where "s1 = processPriceUpdate smb p s0"
  have fin: "priceUpdates smb (u # ups) s = priceUpdates smb ups s1"
    by (simp add: u s1_def s0_def)
  have cd: "cooldown s1 = cooldown s" unfolding s1_def using update_frame[of smb p s0]
    by (simp add: s0_def)
  have "now s1 \<le> now (priceUpdates smb ups s1)" using run_frame by blast
  with Cons.prems(3) have w1: "now s1 - t < cooldown s0" unfolding fin by (simp add: s0_def)
  have l0: "lastAlertTimes s0 key = Some t" using Cons.prems(1) by (simp add: s0_def)
  from loop_blocked[OF l0 Cons.prems(2) w1[unfolded s1_def processPriceUpdate_def]]
  have b: "triggeredOn key s1 = triggeredOn key s" "lastAlertTimes s1 key = Some t"
    by (simp_all add: s1_def processPriceUpdate_def s0_def)
  from Cons.prems(3) have w: "now (priceUpdates smb ups s1) - t < cooldown s1"
    unfolding fin by (simp add: cd)
  from Cons.IH[OF b(2) Cons.prems(2) w] b(1) show ?case unfolding fin by simp
qed

lemma run_trace:
  "\<exists>fired. emitted (priceUpdates smb ups s) = emitted s @ map AlertTriggered fired \<and>
           alertHistory (priceUpdates smb ups s) = foldl pushHistory (alertHistory s) fired \<and>
           sends (priceUpdates smb ups s) =
             sends s @ concat (map (dispatchCycle (length (notifiers s))) fired)"
proof (induction ups arbitrary: s)
  case Nil
  show ?case by (rule exI[of _ "[]"]) simp
next
  case (Cons u ups)
  obtain d p where u: "u = (d, p)" by (cases u)
  define s0 where "s0 = s\<lparr>now := now s + int d\<rparr>"
  define s1 where "s1 = processPriceUpdate smb p s0"
  have fin: "priceUpdates smb (u # ups) s = priceUpdates smb ups s1"
    by (simp add: u s1_def s0_def)
  from loop_trace[of _ p s0] obtain f1 where
    f1: "emitted s1 = emitted s0 @ map AlertTriggered f1"
        "alertHistory s1 = foldl pushHistory (alertHistory s0) f1"
        "sends s1 = sends s0 @ concat (map (dispatchCycle (length (notifiers s0))) f1)"
    unfolding s1_def processPriceUpdate_def by blast
  from Cons.IH[of s1] obtain f2 where
    f2: "emitted (priceUpdates smb ups s1) = emitted s1 @ map AlertTriggered f2"
        "alertHistory (priceUpdates smb ups s1) = foldl pushHistory (alertHistory s1) f2"
        "sends (priceUpdates smb ups s1) =
           sends s1 @ concat (map (dispatchCycle (length (notifiers s1))) f2)"
    by blast
  have n: "length (notifiers s1) = length (notifiers s)"
    unfolding s1_def using update_frame[of smb p s0] by (simp add: s0_def)
  show ?case
    unfolding fin using f1 f2 n
    by (intro exI[of _ "f1 @ f2"]) (simp add: s0_def)
qed

section \<open>One alert alone on its cooldown key\<close>

lemma alone_now [simp]: "alone k key (s\<lparr>now := t\<rparr>) = alone k key s"
  by (simp add: alone_def)

lemma alone_update: "alone k key s \<Longrightarrow> alone k key (processPriceUpdate smb p s)"
  using update_frame[of smb p s] by (simp add: alone_def keysOf_update)

lemma alone_intro:
  assumes "distinct (map fst (alerts s))"
    and "\<forall>(j, b) \<in> set (alerts s). j \<noteq> k \<longrightarrow> alertKey b \<noteq> key"
  shows "alone k key s"
  using assms by (force simp add: alone_def keysOf_def)

text \<open>An update in which the alert does not fire, and one in which it does.\<close>

lemma update_quiet:
  assumes w: "alone k key s" and g: "mapGet k (alerts s) = Some b"
    and n: "status b = Active \<longrightarrow> \<not> fst (checkAlert b p)"
  shows "triggeredOn key (processPriceUpdate smb p s) = triggeredOn key s \<and>
         lastAlertTimes (processPriceUpdate smb p s) key = lastAlertTimes s key \<and>
         mapGet k (alerts (processPriceUpdate smb p s)) =
           Some (if selects (activeOn smb) b then b\<lparr>lastPrice := Some p\<rparr> else b)"
proof -
  from w have d: "distinct (map fst (alerts s))"
    and o: "\<forall>(j, c) \<in> set (keysOf s). j \<noteq> k \<longrightarrow> c \<noteq> key"
    by (simp_all add: alone_def)
  note u = update_alert[OF d g o, of smb p]
  show ?thesis
  proof (cases "selects (activeOn smb) b")
    case False
    with u show ?thesis by simp
  next
    case True
    then have act: "status b = Active" by (simp add: selects_def activeOn_def)
    from u True obtain s0 where
      s0: "mapGet k (alerts s0) = Some b" "lastAlertTimes s0 key = lastAlertTimes s key"
          "triggeredOn key s0 = triggeredOn key s"
          "mapGet k (alerts (processPriceUpdate smb p s)) =
             mapGet k (alerts (processPriceUpdate_body k p s0))"
          "triggeredOn key (processPriceUpdate smb p s) =
             triggeredOn key (processPriceUpdate_body k p s0)"
          "lastAlertTimes (processPriceUpdate smb p s) key =
             lastAlertTimes (processPriceUpdate_body k p s0) key"
      by blast
    from n act have "\<not> fst (checkAlert b p)" by simp
    with s0(1) have nf: "\<not> fires k p s0" by (simp add: fires_def)
    have "mapGet k (alerts (processPriceUpdate_body k p s0)) = Some (b\<lparr>lastPrice := Some p\<rparr>)"
      unfolding body_not_fires[OF nf] using s0(1) act by (simp add: mapGet_mapModify)
    with body_silent[OF nf, of key] s0 True show ?thesis by simp
  qed
qed

lemma update_fire:
  assumes w: "alone k key s" and g: "mapGet k (alerts s) = Some b"
    and kb: "alertKey b = key" and act: "status b = Active" and sy: "symbol b = smb"
    and c: "fst (checkAlert b p)" and nc: "\<not> inCooldown s key"
  shows "\<exists>t. now s \<le> t \<and>
             triggeredOn key (processPriceUpdate smb p s) = triggeredOn key s @ [firedAlert b p t] \<and>
             mapGet k (alerts (processPriceUpdate smb p s)) =
               Some (if repeat b then (firedAlert b p t)\<lparr>status := Active\<rparr> else firedAlert b p t)"
proof -
  from w have d: "distinct (map fst (alerts s))"
    and o: "\<forall>(j, c) \<in> set (keysOf s). j \<noteq> k \<longrightarrow> c \<noteq> key"
    by (simp_all add: alone_def)
  from act sy have sel: "selects (activeOn smb) b" by (simp add: selects_def activeOn_def)
  from update_alert[OF d g o, of smb p] sel obtain s0 where
    s0: "mapGet k (alerts s0) = Some b" "lastAlertTimes s0 key = lastAlertTimes s key"
        "cooldown s0 = cooldown s" "now s \<le> now s0"
        "triggeredOn key s0 = triggeredOn key s"
        "mapGet k (alerts (processPriceUpdate smb p s)) =
           mapGet k (alerts (processPriceUpdate_body k p s0))"
        "triggeredOn key (processPriceUpdate smb p s) =
           triggeredOn key (processPriceUpdate_body k p s0)"
    by blast
  from not_inCooldown_later[OF nc s0(2,3,4)] have nc0: "\<not> inCooldown s0 key" .
  with s0(1) act c kb have f: "fires k p s0" by (simp add: fires_def)
  from body_fires(1)[OF f s0(1)] kb
  have "triggeredOn key (processPriceUpdate_body k p s0) =
          triggeredOn key s0 @ [firedAlert b p (now s0)]"
    by (simp add: triggeredOn_def triggeredAlerts_append)
  moreover have "mapGet k (alerts (processPriceUpdate_body k p s0)) =
      Some (if repeat b then (firedAlert b p (now s0))\<lparr>status := Active\<rparr>
            else firedAlert b p (now s0))"
    unfolding body_fires(5)[OF f s0(1)] using s0(1) by (simp add: mapGet_mapModify)
  ultimately show ?thesis using s0 by (intro exI[of _ "now s0"]) simp
qed

lemma cross_quiet_update:
  assumes w: "alone k key s" and g: "mapGet k (alerts s) = Some b" and c: "atype b = Cross"
    and n: "\<not> ((lastBelow b \<and> price b \<le> p) \<or> (lastAbove b \<and> p \<le> price b))"
  shows "triggeredOn key (processPriceUpdate smb p s) = triggeredOn key s \<and>
         lastAlertTimes (processPriceUpdate smb p s) key = lastAlertTimes s key \<and>
         mapGet k (alerts (processPriceUpdate smb p s)) =
           Some (if selects (activeOn smb) b then b\<lparr>lastPrice := Some p\<rparr> else b)"
proof (rule update_quiet[OF w g])
  show "status b = Active \<longrightarrow> \<not> fst (checkAlert b p)"
    using n c by (simp add: cross_check)
qed

lemma cross_fire_update:
  assumes w: "alone k key s" and g: "mapGet k (alerts s) = Some b" and c: "atype b = Cross"
    and kb: "alertKey b = key" and act: "status b = Active" and sy: "symbol b = smb"
    and lb: "lastBelow b" and hit: "price b \<le> p" and nc: "\<not> inCooldown s key"
  shows "\<exists>t. triggeredOn key (processPriceUpdate smb p s) = triggeredOn key s @ [firedAlert b p t] \<and>
             mapGet k (alerts (processPriceUpdate smb p s)) =
               Some (if repeat b then (firedAlert b p t)\<lparr>status := Active\<rparr> else firedAlert b p t)"
proof -
  from lb hit cross_check[OF act c, of p] have "fst (checkAlert b p)" by simp
  from update_fire[OF w g kb act sy this nc] show ?thesis by blast
qed

text \<open>While the prices stay below the target, nothing fires.\<close>

lemma run_below:
  assumes "alone k key s" and "mapGet k (alerts s) = Some b" and "atype b = Cross"
    and "status b = Active" and "symbol b = smb" and "alertKey b = key" and "\<not> lastAbove b"
    and "\<forall>p \<in> set (map snd ups). p < price b" and "\<not> inCooldown s key"
  shows "triggeredOn key (priceUpdates smb ups s) = triggeredOn key s \<and>
         alone k key (priceUpdates smb ups s) \<and>
         \<not> inCooldown (priceUpdates smb ups s) key \<and>
         mapGet k (alerts (priceUpdates smb ups s)) =
           Some (b\<lparr>lastPrice := (if ups = [] then lastPrice b else Some (snd (last ups)))\<rparr>)"
  using assms
proof (induction ups arbitrary: s b)
  case Nil
  then show ?case by simp
next
  case (Cons u ups)
  obtain d p where u: "u = (d, p)" by (cases u)
  define s0 where "s0 = s\<lparr>now := now s + int d\<rparr>"
  define s1 where "s1 = processPriceUpdate smb p s0"
  define b1 where "b1 = b\<lparr>lastPrice := Some p\<rparr>"
  have fin: "priceUpdates smb (u # ups) s = priceUpdates smb ups s1"
    by (simp add: u s1_def s0_def)
  from Cons.prems(8) have pb: "p < price b" by (simp add: u)
  have w0: "alone k key s0" using Cons.prems(1) by (simp add: s0_def)
  have g0: "mapGet k (alerts s0) = Some b" using Cons.prems(2) by (simp add: s0_def)
  have nc0: "\<not> inCooldown s0 key" unfolding s0_def by (rule inCooldown_now_later[OF Cons.prems(9)])
  from pb Cons.prems(7)
  have n: "\<not> ((lastBelow b \<and> price b \<le> p) \<or> (lastAbove b \<and> p \<le> price b))" by simp
  from Cons.prems(4,5) have sel: "selects (activeOn smb) b" by (simp add: selects_def activeOn_def)
  from cross_quiet_update[OF w0 g0 Cons.prems(3) n, of smb] sel
  have q: "triggeredOn key s1 = triggeredOn key s0" "lastAlertTimes s1 key = lastAlertTimes s0 key"
    "mapGet k (alerts s1) = Some b1"
    by (simp_all add: s1_def b1_def)
  have w1: "alone k key s1" unfolding s1_def by (rule alone_update[OF w0])
  have fr: "cooldown s1 = cooldown s0" "now s0 \<le> now s1"
    unfolding s1_def using update_frame[of smb p s0] by simp_all
  from not_inCooldown_later[OF nc0 q(2) fr] have nc1: "\<not> inCooldown s1 key" .
  have b1: "atype b1 = Cross" "status b1 = Active" "symbol b1 = smb" "alertKey b1 = key"
    "\<not> lastAbove b1" "price b1 = price b"
    using Cons.prems(3,4,5,6) pb by (simp_all add: b1_def lastAbove_def)
  from Cons.prems(8) have rest: "\<forall>p \<in> set (map snd ups). p < price b1" by (simp add: b1(6))
  from Cons.IH[OF w1 q(3) b1(1,2,3,4,5) rest nc1] q(1)
  show ?case unfolding fin by (simp add: s0_def b1_def u)
qed

text \<open>Once the last observed price is at or above the target and prices do not fall, nothing fires.\<close>

lemma run_above:
  assumes "alone k key s" and "mapGet k (alerts s) = Some b" and "atype b = Cross"
    and "lastPrice b = Some q" and "price b \<le> q"
    and "sorted (map snd ups)" and "\<forall>p \<in> set (map snd ups). q \<le> p"
  shows "triggeredOn key (priceUpdates smb ups s) = triggeredOn key s"
  using assms
proof (induction ups arbitrary: s b q)
  case Nil
  then show ?case by simp
next
  case (Cons u ups)
  obtain d p where u: "u = (d, p)" by (cases u)
  define s0 where "s0 = s\<lparr>now := now s + int d\<rparr>"
  define s1 where "s1 = processPriceUpdate smb p s0"
  define b1 where "b1 = (if selects (activeOn smb) b then b\<lparr>lastPrice := Some p\<rparr> else b)"
  define q1 where "q1 = (if selects (activeOn smb) b then p else q)"
  have fin: "priceUpdates smb (u # ups) s = priceUpdates smb ups s1"
    by (simp add: u s1_def s0_def)
  from Cons.prems(7) have qp: "q \<le> p" by (simp add: u)
  have w0: "alone k key s0" using Cons.prems(1) by (simp add: s0_def)
  have g0: "mapGet k (alerts s0) = Some b" using Cons.prems(2) by (simp add: s0_def)
  from qp Cons.prems(4,5)
  have n: "\<not> ((lastBelow b \<and> price b \<le> p) \<or> (lastAbove b \<and> p \<le> price b))"
    by (auto simp add: lastBelow_def lastAbove_def)
  from cross_quiet_update[OF w0 g0 Cons.prems(3) n, of smb]
  have qu: "triggeredOn key s1 = triggeredOn key s0" "mapGet k (alerts s1) = Some b1"
    by (simp_all add: s1_def b1_def)
  have w1: "alone k key s1" unfolding s1_def by (rule alone_update[OF w0])
  have b1: "atype b1 = Cross" "lastPrice b1 = Some q1" "price b1 \<le> q1"
    using Cons.prems(3,4,5) qp by (simp_all add: b1_def q1_def)
  from Cons.prems(6) have so: "sorted (map snd ups)" and ge: "\<forall>x \<in> set (map snd ups). p \<le> x"
    by (simp_all add: u)
  from ge qp have ge1: "\<forall>x \<in> set (map snd ups). q1 \<le> x" by (auto simp add: q1_def)
  from Cons.IH[OF w1 qu(2) b1 so ge1] qu(1) show ?case unfolding fin by (simp add: s0_def)
qed

lemma rising_split:
  assumes "ups \<noteq> []" and "snd (hd ups) < T" and "T \<le> snd (last ups)"
  shows "\<exists>before d p after. ups = before @ (d, p) # after \<and> before \<noteq> [] \<and>
           (\<forall>x \<in> set before. snd x < T) \<and> T \<le> (p :: real)"
proof -
  define before where "before = takeWhile (\<lambda>x. snd x < T) ups"
  define rest where "rest = dropWhile (\<lambda>x. snd x < T) ups"
  have ups: "ups = before @ rest" by (simp add: before_def rest_def)
  have "rest \<noteq> []"
  proof
    assume "rest = []"
    then have "\<forall>x \<in> set ups. snd x < T" by (simp add: rest_def)
    with assms(1) have "snd (last ups) < T" by simp
    with assms(3) show False by simp
  qed
  then obtain d p after where r: "rest = (d, p) # after" by (cases rest) auto
  from \<open>rest \<noteq> []\<close> have "\<not> snd (hd rest) < T"
    unfolding rest_def using hd_dropWhile by blast
  with r have p: "T \<le> p" by simp
  from assms(1,2) have "before \<noteq> []" by (cases ups) (simp_all add: before_def)
  moreover have "\<forall>x \<in> set before. snd x < T"
    unfolding before_def by (auto dest: set_takeWhileD)
  ultimately show ?thesis using ups r p by blast
qed

section \<open>The drain loop of the notifier\<close>

declare processQueue_loop.simps [simp del]

lemma processQueue_loop_empty: "messageQueue s = [] \<Longrightarrow> processQueue_loop env s = s"
  by (subst processQueue_loop.simps) simp

lemma processQueue_loop_step:
  "messageQueue s = n # q \<Longrightarrow>
     processQueue_loop env s =
       processQueue_loop (stl env) (processQueue_turn (shd env) n (s\<lparr>messageQueue := q\<rparr>))"
  by (subst processQueue_loop.simps) simp

lemma spaced_snoc:
  "spaced d xs \<Longrightarrow> a \<le> r \<Longrightarrow> (xs \<noteq> [] \<longrightarrow> fst (snd (last xs)) + d \<le> a) \<Longrightarrow>
     spaced d (xs @ [(a, r, n)])"
  by (induction d xs rule: spaced.induct) auto

text \<open>What one turn of the drain loop does.\<close>

lemma turn_delivered:
  assumes "\<not> thrown e"
  shows "\<exists>a r. deliveries (processQueue_turn e n s) = deliveries s @ [(a, r, n)] \<and>
               lastSendTime s + minInterval s \<le> a \<and> a \<le> r \<and>
               lastSendTime (processQueue_turn e n s) = r \<and>
               clock (processQueue_turn e n s) = r \<and>
               sendErrors (processQueue_turn e n s) = sendErrors s"
  using assms by (simp add: processQueue_turn_def Let_def)

lemma turn_thrown:
  assumes "thrown e"
  shows "deliveries (processQueue_turn e n s) = deliveries s \<and>
         lastSendTime (processQueue_turn e n s) = lastSendTime s \<and>
         sendErrors (processQueue_turn e n s) = sendErrors s @ [n]"
  using assms by (simp add: processQueue_turn_def Let_def)

lemma turn_frame:
  "minInterval (processQueue_turn e n s) = minInterval s \<and>
   messageQueue (processQueue_turn e n s) = messageQueue s \<and>
   processing (processQueue_turn e n s) = processing s \<and>
   enabled (processQueue_turn e n s) = enabled s \<and>
   bot_obj (processQueue_turn e n s) = bot_obj s \<and>
   clock s \<le> clock (processQueue_turn e n s)"
  by (simp add: processQueue_turn_def Let_def)

lemma paced_turn: "paced s \<Longrightarrow> paced (processQueue_turn e n s)"
proof (cases "thrown e")
  case True
  assume "paced s"
  with turn_thrown[OF True, of n s] turn_frame[of e n s] show ?thesis
    by (simp add: paced_def)
next
  case False
  assume p: "paced s"
  from turn_delivered[OF False, of n s] obtain a r where
    d: "deliveries (processQueue_turn e n s) = deliveries s @ [(a, r, n)]"
       "lastSendTime s + minInterval s \<le> a" "a \<le> r"
       "lastSendTime (processQueue_turn e n s) = r"
    by blast
  from p d(2) have "deliveries s \<noteq> [] \<longrightarrow> fst (snd (last (deliveries s))) + minInterval s \<le> a"
    by (auto simp add: paced_def)
  with p d(3) have "spaced (minInterval s) (deliveries s @ [(a, r, n)])"
    by (intro spaced_snoc) (simp_all add: paced_def)
  with d turn_frame[of e n s] show ?thesis by (simp add: paced_def)
qed

lemma paced_queue [simp]: "paced (s\<lparr>messageQueue := q\<rparr>) = paced s"
  by (simp add: paced_def)

lemma paced_processing [simp]: "paced (s\<lparr>processing := b\<rparr>) = paced s"
  by (simp add: paced_def)

lemma paced_bot_obj [simp]: "paced (s\<lparr>bot_obj := b\<rparr>) = paced s"
  by (simp add: paced_def)

lemma paced_clock [simp]: "paced (s\<lparr>clock := c\<rparr>) = paced s"
  by (simp add: paced_def)

lemma paced_loop: "paced s \<Longrightarrow> paced (processQueue_loop env s)"
proof (induction env s rule: processQueue_loop.induct)
  case (1 env s)
  show ?case
  proof (cases "messageQueue s")
    case Nil
    with "1.prems" show ?thesis by (simp add: processQueue_loop_empty)
  next
    case (Cons n q)
    from "1.prems" have "paced (processQueue_turn (shd env) n (s\<lparr>messageQueue := q\<rparr>))"
      by (simp add: paced_turn)
    from "1.IH"[OF Cons this] show ?thesis by (simp add: processQueue_loop_step[OF Cons])
  qed
qed

lemma loop_minInterval: "minInterval (processQueue_loop env s) = minInterval s"
proof (induction env s rule: processQueue_loop.induct)
  case (1 env s)
  show ?case
  proof (cases "messageQueue s")
    case Nil
    then show ?thesis by (simp add: processQueue_loop_empty)
  next
    case (Cons n q)
    from "1.IH"[OF Cons] turn_frame[of "shd env" n "s\<lparr>messageQueue := q\<rparr>"]
    show ?thesis by (simp add: processQueue_loop_step[OF Cons])
  qed
qed

lemma loop_drains: "messageQueue (processQueue_loop env s) = []"
proof (induction env s rule: processQueue_loop.induct)
  case (1 env s)
  show ?case
  proof (cases "messageQueue s")
    case Nil
    then show ?thesis by (simp add: processQueue_loop_empty)
  next
    case (Cons n q)
    from "1.IH"[OF Cons] show ?thesis by (simp add: processQueue_loop_step[OF Cons])
  qed
qed

lemma paced_processQueue: "paced s \<Longrightarrow> paced (processQueue env s)"
  by (simp add: processQueue_def paced_loop)

lemma processQueue_minInterval: "minInterval (processQueue env s) = minInterval s"
  by (simp add: processQueue_def loop_minInterval)

lemma treachable_paced: "treachable s \<Longrightarrow> paced s \<and> minInterval s = 1000"
proof (induction rule: treachable.induct)
  case (t_new cfg t)
  show ?case by (simp add: TelegramNotifier_def paced_def)
next
  case (t_initialize s)
  then show ?case by (auto simp add: initialize_def paced_def)
next
  case (t_send s n env)
  then show ?case
    by (simp add: tsend_def Let_def paced_processQueue processQueue_minInterval)
next
  case (t_cleanup s env)
  define s1 where "s1 = (if messageQueue s \<noteq> [] then processQueue env s else s)"
  from t_cleanup.IH have "paced s1 \<and> minInterval s1 = 1000"
    unfolding s1_def by (simp add: paced_processQueue processQueue_minInterval)
  moreover have "cleanup env s = s1\<lparr>bot_obj := False\<rparr>"
    by (simp add: cleanup_def s1_def Let_def)
  ultimately show ?case by simp
next
  case (t_elapse s d)
  then show ?case by simp
qed

section \<open>The example states, evaluated\<close>

lemma twoAlerts_alerts:
  assumes "2 \<le> orDefault (c_maxAlerts cfg) 100"
  shows "alerts (twoAlerts cfg) =
     [(''a1'', newAlert (ethAbove ''a1'') ''u1'' 1700000000000),
      (''a2'', newAlert (ethAbove ''a2'') ''u2'' 1700000000000)]"
  using assms
  by (simp add: twoAlerts_def addAlert_def AlertManager_def alertIdOf_def ethAbove_def Let_def)

lemma watched_eq:
  "watched =
    \<lparr>alerts = [(''a1'', newAlert (ethAbove ''a1'') ''u1'' 1700000000000)],
     notifiers = [failing, accepting], alertHistory = [],
     maxAlerts = 100, cooldown = 3600000,
     lastAlertTimes = Map.empty, hasLogger = True,
     now = 1700000000000,
     emitted = [AlertCreated (newAlert (ethAbove ''a1'') ''u1'' 1700000000000)],
     logged = [], sends = []\<rparr>"
  by (simp add: watched_def withLogger_def addNotifier_def addAlert_def AlertManager_def
      orDefault_def Let_def alertIdOf_def ethAbove_def)

lemma watched_fires: "fires ''a1'' 3100 watched"
  by (simp add: fires_def watched_eq newAlert_def ethAbove_def checkAlert_def inCooldown_def
      alertKey_def Let_def)

lemma watched_body_logged: "logged (processPriceUpdate_body ''a1'' 3100 watched) = [''unreachable'']"
  by (simp add: watched_eq processPriceUpdate_body_def newAlert_def ethAbove_def checkAlert_def
      inCooldown_def alertKey_def Let_def sendAlert_def)

lemma listening_eq:
  "listening =
    \<lparr>alerts = [], notifiers = [accepting], alertHistory = [],
     maxAlerts = 100, cooldown = 3600000,
     lastAlertTimes = Map.empty, hasLogger = False,
     now = 1700000000000, emitted = [], logged = [], sends = []\<rparr>"
  by (simp add: listening_def defaults_def addNotifier_def AlertManager_def orDefault_def)

lemma twoWatched_eq:
  "twoWatched =
    \<lparr>alerts = [(''a1'', newAlert (ethAbove ''a1'') ''u1'' 1700000000000),
               (''a2'', newAlert (ethAbove ''a2'') ''u2'' 1700000000000)],
     notifiers = [accepting], alertHistory = [],
     maxAlerts = 100, cooldown = 3600000,
     lastAlertTimes = Map.empty, hasLogger = False,
     now = 1700000000000,
     emitted = [AlertCreated (newAlert (ethAbove ''a1'') ''u1'' 1700000000000),
                AlertCreated (newAlert (ethAbove ''a2'') ''u2'' 1700000000000)],
     logged = [], sends = []\<rparr>"
  by (simp add: twoWatched_def listening_def defaults_def addNotifier_def addAlert_def
      AlertManager_def orDefault_def Let_def alertIdOf_def ethAbove_def)

lemma twoWatched_update:
  "map (\<lambda>(k, a). (k, status a)) (alerts (processPriceUpdate ''ETHUSDT'' 3100 twoWatched)) =
     [(''a1'', Triggered), (''a2'', Active)] \<and>
   map fst (sends (processPriceUpdate ''ETHUSDT'' 3100 twoWatched)) = [0] \<and>
   map ident (triggeredAlerts (emitted (processPriceUpdate ''ETHUSDT'' 3100 twoWatched))) = [''a1'']"
  by (simp add: twoWatched_eq processPriceUpdate_def activeOn_def selects_def newAlert_def
      ethAbove_def processPriceUpdate_body_def checkAlert_def Let_def inCooldown_def alertKey_def
      sendAlert_def pushHistory_def alertIdOf_def)

lemma reachable_twoWatched: "reachable twoWatched"
  unfolding twoWatched_def listening_def
  by (intro reachable.intros) simp_all

lemma repeating_eq:
  "repeating =
    \<lparr>alerts = [(''r1'', newAlert ((ethAbove ''r1'')\<lparr>cfg_repeat := True\<rparr>) ''u1'' 1700000000000)],
     notifiers = [accepting], alertHistory = [],
     maxAlerts = 100, cooldown = 3600000,
     lastAlertTimes = Map.empty, hasLogger = False,
     now = 1700000000000,
     emitted = [AlertCreated (newAlert ((ethAbove ''r1'')\<lparr>cfg_repeat := True\<rparr>) ''u1'' 1700000000000)],
     logged = [], sends = []\<rparr>"
  by (simp add: repeating_def listening_eq addAlert_def Let_def alertIdOf_def ethAbove_def)

lemma repeating_run:
  "now (priceUpdates ''ETHUSDT'' threeHits repeating) = 1700000060005 \<and>
   map_option status (mapGet ''r1'' (alerts (priceUpdates ''ETHUSDT'' threeHits repeating))) = Some Active \<and>
   map_option lastPrice (mapGet ''r1'' (alerts (priceUpdates ''ETHUSDT'' threeHits repeating))) = Some (Some 3300) \<and>
   map triggeredPrice (triggeredAlerts (emitted (priceUpdates ''ETHUSDT'' threeHits repeating))) = [Some 3100] \<and>
   map triggeredPrice (alertHistory (priceUpdates ''ETHUSDT'' threeHits repeating)) = [Some 3100] \<and>
   map fst (sends (priceUpdates ''ETHUSDT'' threeHits repeating)) = [0]"
  by (simp add: threeHits_def repeating_eq processPriceUpdate_def activeOn_def selects_def newAlert_def
      ethAbove_def processPriceUpdate_body_def checkAlert_def Let_def inCooldown_def alertKey_def
      sendAlert_def pushHistory_def)

lemma crossing_eq:
  "crossing =
    \<lparr>alerts = [(''c1'', newAlert ethCross ''u1'' 1700000000000)],
     notifiers = [accepting], alertHistory = [],
     maxAlerts = 100, cooldown = 3600000,
     lastAlertTimes = Map.empty, hasLogger = False,
     now = 1700000000000,
     emitted = [AlertCreated (newAlert ethCross ''u1'' 1700000000000)],
     logged = [], sends = []\<rparr>"
  by (simp add: crossing_def listening_eq addAlert_def Let_def alertIdOf_def ethCross_def)

lemma crossing_run:
  "map triggeredPrice (triggeredAlerts (emitted (priceUpdates ''ETHUSDT'' rising crossing))) =
     [Some 3050] \<and>
   map_option status (mapGet ''c1'' (alerts (priceUpdates ''ETHUSDT'' rising crossing))) =
     Some Active"
  by (simp add: rising_def crossing_eq processPriceUpdate_def activeOn_def selects_def newAlert_def
      ethCross_def processPriceUpdate_body_def checkAlert_def Let_def inCooldown_def alertKey_def
      sendAlert_def pushHistory_def lastBelow_def lastAbove_def)

lemma twoSent_eq:
  "twoSent =
     \<lparr>botToken = Some ''token'', chatId = Some ''chat'', enabled = True, bot_obj = True,
      lastSendTime = 6040, minInterval = 1000, messageQueue = [], processing = False,
      clock = 6040, deliveries = [(5000, 5020, ''m1''), (6020, 6040, ''m2'')],
      sendErrors = []\<rparr>"
  by (simp add: twoSent_def steady_def tsend_def initialize_def TelegramNotifier_def
      processQueue_def processQueue_loop_step processQueue_loop_empty processQueue_turn_def Let_def)

lemma treachable_twoSent: "treachable twoSent"
  unfolding twoSent_def by (intro treachable.intros)

lemma twoWatched_hit:
  "emitted (processPriceUpdate ''ETHUSDT'' 3100 twoWatched) =
     emitted twoWatched @
       [AlertTriggered (firedAlert (newAlert (ethAbove ''a1'') ''u1'' 1700000000000) 3100 1700000000000)]"
  "mapGet ''a1'' (alerts (processPriceUpdate ''ETHUSDT'' 3100 twoWatched)) =
     Some (firedAlert (newAlert (ethAbove ''a1'') ''u1'' 1700000000000) 3100 1700000000000)"
  "mapGet ''a2'' (alerts (processPriceUpdate ''ETHUSDT'' 3100 twoWatched)) =
     Some ((newAlert (ethAbove ''a2'') ''u2'' 1700000000000)\<lparr>lastPrice := Some 3100\<rparr>)"
  by (simp_all add: twoWatched_eq processPriceUpdate_def activeOn_def selects_def newAlert_def
      ethAbove_def processPriceUpdate_body_def checkAlert_def Let_def inCooldown_def alertKey_def
      sendAlert_def pushHistory_def alertIdOf_def firedAlert_def)

lemma twoWatched_miss:
  "emitted (processPriceUpdate ''ETHUSDT'' 2900 twoWatched) = emitted twoWatched"
  by (simp add: twoWatched_eq processPriceUpdate_def activeOn_def selects_def newAlert_def
      ethAbove_def processPriceUpdate_body_def checkAlert_def Let_def inCooldown_def alertKey_def
      sendAlert_def pushHistory_def alertIdOf_def firedAlert_def)

lemma aboveBelow_eq:
  "aboveBelow =
    \<lparr>alerts = [(''a1'', newAlert (ethAbove ''a1'') ''u1'' 1700000000000),
               (''b1'', newAlert (ethBelow ''b1'') ''u2'' 1700000000000)],
     notifiers = [accepting], alertHistory = [],
     maxAlerts = 100, cooldown = 3600000,
     lastAlertTimes = Map.empty, hasLogger = False,
     now = 1700000000000,
     emitted = [AlertCreated (newAlert (ethAbove ''a1'') ''u1'' 1700000000000),
                AlertCreated (newAlert (ethBelow ''b1'') ''u2'' 1700000000000)],
     logged = [], sends = []\<rparr>"
  by (simp add: aboveBelow_def listening_def defaults_def addNotifier_def addAlert_def
      AlertManager_def orDefault_def Let_def alertIdOf_def ethAbove_def ethBelow_def)

lemma reachable_aboveBelow: "reachable aboveBelow"
  unfolding aboveBelow_def listening_def
  by (intro reachable.intros) simp_all

lemma aboveBelow_update:
  "emitted (processPriceUpdate ''ETHUSDT'' 2900 aboveBelow) =
     emitted aboveBelow @
       [AlertTriggered (firedAlert (newAlert (ethBelow ''b1'') ''u2'' 1700000000000) 2900 1700000000000)]"
  "emitted (processPriceUpdate ''ETHUSDT'' 3100 aboveBelow) =
     emitted aboveBelow @
       [AlertTriggered (firedAlert (newAlert (ethAbove ''a1'') ''u1'' 1700000000000) 3100 1700000000000)]"
  by (simp_all add: aboveBelow_eq processPriceUpdate_def activeOn_def selects_def newAlert_def
      ethAbove_def ethBelow_def processPriceUpdate_body_def checkAlert_def Let_def inCooldown_def
      alertKey_def sendAlert_def pushHistory_def alertIdOf_def firedAlert_def)

section \<open>The claims\<close>

text \<open>
  C1, as stated, fails: after two alerts (ETHUSDT, 3000, above) with the ids \<open>a1\<close> and
  \<open>a2\<close> are added to an empty store and the price 3100 is processed once, the two
  alerts are not both \<open>triggered\<close>. The first one fires and records the time under the
  shared key; the second one is then in cooldown and is skipped before its status is
  written.
\<close>

theorem shared_cooldown_counterexample:
  "\<not> (map_option status (mapGet ''a1'' (alerts (processPriceUpdate ''ETHUSDT'' 3100 twoWatched))) =
        Some Triggered \<and>
      map_option status (mapGet ''a2'' (alerts (processPriceUpdate ''ETHUSDT'' 3100 twoWatched))) =
        Some Triggered)"
  by (simp add: twoWatched_eq processPriceUpdate_def activeOn_def selects_def newAlert_def
      ethAbove_def processPriceUpdate_body_def checkAlert_def Let_def inCooldown_def alertKey_def
      sendAlert_def pushHistory_def alertIdOf_def)

text \<open>
  C1, amended. Take a store that holds no alert, has room for two (its maximum is at
  least 2), whose clock is not 0, and in which the cooldown key (ETHUSDT, above, 3000)
  is not in cooldown; a store freshly constructed with the default settings at a
  non-zero time is one. Two alerts (ETHUSDT, 3000, above) with distinct, non-empty ids
  are added to it, and then one price at or above 3000 is processed for ETHUSDT, the
  update ending less than the cooldown after the time of the store. Then exactly one dispatch cycle runs and exactly
  one \<open>alert_triggered\<close> event is emitted, both for the alert added first, which is
  \<open>triggered\<close> afterwards; the alert added second stays \<open>active\<close>.
\<close>

theorem two_alerts_one_dispatch:
  assumes empty: "alerts s = []" and nc: "\<not> inCooldown s (''ETHUSDT'', Above, 3000)"
    and cap: "2 \<le> maxAlerts s" and t0: "now s \<noteq> 0"
    and ids: "ia \<noteq> ib" "ia \<noteq> []" "ib \<noteq> []" and p: "3000 \<le> p"
    and window: "now (processPriceUpdate ''ETHUSDT'' p
                   (snd (addAlert (ethAbove ib) u2 (snd (addAlert (ethAbove ia) u1 s))))) - now s
                 < cooldown s"
  shows "sends (processPriceUpdate ''ETHUSDT'' p
                 (snd (addAlert (ethAbove ib) u2 (snd (addAlert (ethAbove ia) u1 s))))) =
           sends s @ dispatchCycle (length (notifiers s))
                       (firedAlert (newAlert (ethAbove ia) u1 (now s)) p (now s)) \<and>
         triggeredAlerts (emitted (processPriceUpdate ''ETHUSDT'' p
                 (snd (addAlert (ethAbove ib) u2 (snd (addAlert (ethAbove ia) u1 s)))))) =
           triggeredAlerts (emitted s) @ [firedAlert (newAlert (ethAbove ia) u1 (now s)) p (now s)] \<and>
         map_option status (mapGet ia (alerts (processPriceUpdate ''ETHUSDT'' p
                 (snd (addAlert (ethAbove ib) u2 (snd (addAlert (ethAbove ia) u1 s))))))) =
           Some Triggered \<and>
         map_option status (mapGet ib (alerts (processPriceUpdate ''ETHUSDT'' p
                 (snd (addAlert (ethAbove ib) u2 (snd (addAlert (ethAbove ia) u1 s))))))) =
           Some Active"
proof -
  define A1 where "A1 = newAlert (ethAbove ia) u1 (now s)"
  define A2 where "A2 = newAlert (ethAbove ib) u2 (now s)"
  define s2 where "s2 = snd (addAlert (ethAbove ib) u2 (snd (addAlert (ethAbove ia) u1 s)))"
  define sa where "sa = processPriceUpdate_body ia p s2"
  define F where "F = firedAlert A1 p (now s)"
  have A: "status A1 = Active" "atype A1 = Above" "price A1 = 3000" "symbol A1 = ''ETHUSDT''"
    "\<not> repeat A1" "alertKey A1 = (''ETHUSDT'', Above, 3000)"
    "status A2 = Active" "atype A2 = Above" "price A2 = 3000" "symbol A2 = ''ETHUSDT''"
    "alertKey A2 = (''ETHUSDT'', Above, 3000)"
    by (simp_all add: A1_def A2_def newAlert_def ethAbove_def alertKey_def)
  have s2: "s2 = s\<lparr>alerts := [(ia, A1), (ib, A2)],
                    emitted := emitted s @ [AlertCreated A1, AlertCreated A2]\<rparr>"
    using empty cap ids
    by (simp add: s2_def addAlert_def Let_def alertIdOf_def ethAbove_def A1_def A2_def)
  have upd: "processPriceUpdate ''ETHUSDT'' p s2 = processPriceUpdate_body ib p sa"
    by (simp add: processPriceUpdate_def s2 activeOn_def selects_def A sa_def)
  have g1: "mapGet ia (alerts s2) = Some A1" by (simp add: s2)
  have f1: "fires ia p s2"
    using nc p by (simp add: fires_def g1 A checkAlert_def Let_def s2 inCooldown_iff)
  note b1 = body_fires[OF f1 g1, folded sa_def]
  have now2: "now s2 = now s" by (simp add: s2)
  have alerts_sa: "alerts sa = [(ia, F), (ib, A2)]"
    using b1(5) A(5) by (simp add: s2 F_def)
  have g2: "mapGet ib (alerts sa) = Some A2" using ids by (simp add: alerts_sa)
  have mono: "now sa \<le> now (processPriceUpdate_body ib p sa)" by (rule body_frame(6))
  have cd: "cooldown sa = cooldown s" unfolding sa_def by (simp add: body_frame(2) s2)
  have "inCooldown sa (alertKey A2)"
    using window mono t0 b1(4) unfolding s2_def[symmetric] upd
    by (simp add: inCooldown_iff A now2 cd)
  then have nf: "\<not> fires ib p sa" by (simp add: fires_def g2)
  note b2 = body_not_fires[OF nf]
  have final: "processPriceUpdate ''ETHUSDT'' p s2 =
     sa\<lparr>alerts := [(ia, F), (ib, A2\<lparr>lastPrice := Some p\<rparr>)]\<rparr>"
    unfolding upd b2 using ids by (simp add: alerts_sa A)
  have "sends (processPriceUpdate ''ETHUSDT'' p s2) =
           sends s @ dispatchCycle (length (notifiers s)) F"
    unfolding final using b1(3) by (simp add: s2 now2 F_def)
  moreover have "triggeredAlerts (emitted (processPriceUpdate ''ETHUSDT'' p s2)) =
           triggeredAlerts (emitted s) @ [F]"
    unfolding final using b1(1) by (simp add: s2 now2 F_def triggeredAlerts_append)
  moreover have "map_option status (mapGet ia (alerts (processPriceUpdate ''ETHUSDT'' p s2))) =
           Some Triggered"
    unfolding final by (simp add: F_def firedAlert_def)
  moreover have "map_option status (mapGet ib (alerts (processPriceUpdate ''ETHUSDT'' p s2))) =
           Some Active"
    unfolding final using ids by (simp add: A)
  ultimately show ?thesis unfolding s2_def F_def A1_def by blast
qed

theorem two_alerts_one_dispatch_witness:
  "alerts listening = [] \<and> \<not> inCooldown listening (''ETHUSDT'', Above, 3000) \<and>
   2 \<le> maxAlerts listening \<and> now listening \<noteq> 0 \<and> ''a1'' \<noteq> ''a2'' \<and>
   now (processPriceUpdate ''ETHUSDT'' 3100 twoWatched) - now listening < cooldown listening \<and>
   map fst (sends (processPriceUpdate ''ETHUSDT'' 3100 twoWatched)) = [0] \<and>
   map_option status (mapGet ''a1'' (alerts (processPriceUpdate ''ETHUSDT'' 3100 twoWatched))) =
     Some Triggered \<and>
   map_option status (mapGet ''a2'' (alerts (processPriceUpdate ''ETHUSDT'' 3100 twoWatched))) =
     Some Active"
proof -
  have h: "alerts listening = []" "\<not> inCooldown listening (''ETHUSDT'', Above, 3000)"
    "2 \<le> maxAlerts listening" "now listening \<noteq> 0" "length (notifiers listening) = 1"
    "sends listening = []"
    by (simp_all add: listening_eq inCooldown_iff)
  have w: "now (processPriceUpdate ''ETHUSDT'' 3100 twoWatched) - now listening < cooldown listening"
    by (simp add: twoWatched_eq listening_eq processPriceUpdate_def activeOn_def selects_def
        newAlert_def ethAbove_def processPriceUpdate_body_def checkAlert_def Let_def
        inCooldown_def alertKey_def sendAlert_def pushHistory_def alertIdOf_def)
  have w': "now (processPriceUpdate ''ETHUSDT'' 3100
              (snd (addAlert (ethAbove ''a2'') ''u2'' (snd (addAlert (ethAbove ''a1'') ''u1'' listening)))))
            - now listening < cooldown listening"
    using w by (simp add: twoWatched_def)
  show ?thesis
    using two_alerts_one_dispatch[OF h(1,2,3,4) _ _ _ _ w']
    by (simp add: h w' twoWatched_def dispatchCycle_def)
qed

text \<open>
  C2. Take \<open>N \<ge> 1\<close> price updates on one symbol, the first after \<open>d\<close> ms, with a
  positive clock, all of them ending within one cooldown window counted from the first
  update. If at the first update the key is not in cooldown and some active alert on
  the key has its condition met by the first price, then over the whole sequence
  exactly one alert fires on the key, whether alerts repeat or not and whatever
  the later prices are: the emitted \<open>alert_triggered\<close> events, the pushes on the
  history and the dispatch cycles are those of one list of fired alerts, and exactly
  one of them is on the key. And when the loop body evaluates an active alert whose
  condition holds while its key is in cooldown, it writes \<open>lastPrice\<close> and nothing
  else: no status, no history entry, no event, no dispatch.
\<close>

theorem cooldown_once:
  assumes "0 < now s + int d"
    and "\<not> inCooldown (s\<lparr>now := now s + int d\<rparr>) key"
    and "mapGet k (alerts s) = Some a" and "status a = Active" and "symbol a = smb"
    and "alertKey a = key" and "fst (checkAlert a p)"
    and "now (priceUpdates smb ((d, p) # ups) s) - (now s + int d) < cooldown s"
  shows "(\<exists>fired.
            emitted (priceUpdates smb ((d, p) # ups) s) = emitted s @ map AlertTriggered fired \<and>
            alertHistory (priceUpdates smb ((d, p) # ups) s) =
              foldl pushHistory (alertHistory s) fired \<and>
            sends (priceUpdates smb ((d, p) # ups) s) =
              sends s @ concat (map (dispatchCycle (length (notifiers s))) fired) \<and>
            length (filter (\<lambda>e. alertKey e = key) fired) = 1) \<and>
         (\<forall>k' b q s'. mapGet k' (alerts s') = Some b \<and> status b = Active \<and>
              fst (checkAlert b q) \<and> inCooldown s' (alertKey b) \<longrightarrow>
            processPriceUpdate_body k' q s' =
              s'\<lparr>alerts := mapModify k' (\<lambda>_. b\<lparr>lastPrice := Some q\<rparr>) (alerts s')\<rparr>)"
proof -
  define s0 where "s0 = s\<lparr>now := now s + int d\<rparr>"
  define ks where "ks = map fst (filter (\<lambda>(k, a). selects (activeOn smb) a) (alerts s0))"
  define s1 where "s1 = processPriceUpdate_loop ks p s0"
  have fin: "priceUpdates smb ((d, p) # ups) s = priceUpdates smb ups s1"
    by (simp add: s1_def ks_def s0_def processPriceUpdate_def)
  have sel: "selects (activeOn smb) a" using assms(4,5) by (simp add: selects_def activeOn_def)
  have g: "mapGet k (alerts s0) = Some a" using assms(3) by (simp add: s0_def)
  from selected_key[OF g, of "selects (activeOn smb)"] sel have k: "k \<in> set ks"
    by (simp add: ks_def)
  have pos: "0 < now s0" using assms(1) by (simp add: s0_def)
  have nc: "\<not> inCooldown s0 key" using assms(2) by (simp add: s0_def)
  have m: "now s1 \<le> now (priceUpdates smb ups s1)" using run_frame by blast
  have cd1: "cooldown s1 = cooldown s" unfolding s1_def using loop_frame[of ks p s0]
    by (simp add: s0_def)
  from assms(8) m have w0: "now (processPriceUpdate_loop ks p s0) - now s0 < cooldown s0"
    unfolding fin by (simp add: s0_def s1_def)
  from loop_fires_once[OF nc pos w0 k g assms(6,4,7)] obtain e t where
    e: "triggeredOn key s1 = triggeredOn key s0 @ [e]"
       "lastAlertTimes s1 key = Some t" "now s0 \<le> t"
    unfolding s1_def by blast
  from e(3) pos have tz: "t \<noteq> 0" by simp
  from assms(8) e(3) have w1: "now (priceUpdates smb ups s1) - t < cooldown s1"
    unfolding fin by (simp add: cd1 s0_def)
  from run_blocked[OF e(2) tz w1] e(1)
  have one: "triggeredOn key (priceUpdates smb ((d, p) # ups) s) = triggeredOn key s @ [e]"
    unfolding fin by (simp add: s0_def)
  from run_trace[of smb "(d, p) # ups" s] obtain fired where
    f: "emitted (priceUpdates smb ((d, p) # ups) s) = emitted s @ map AlertTriggered fired"
       "alertHistory (priceUpdates smb ((d, p) # ups) s) = foldl pushHistory (alertHistory s) fired"
       "sends (priceUpdates smb ((d, p) # ups) s) =
          sends s @ concat (map (dispatchCycle (length (notifiers s))) fired)"
    by blast
  from triggeredOn_emitted[OF f(1), of key] one
  have "filter (\<lambda>e. alertKey e = key) fired = [e]" by simp
  then have "length (filter (\<lambda>e. alertKey e = key) fired) = 1" by simp
  with f have first: "\<exists>fired.
            emitted (priceUpdates smb ((d, p) # ups) s) = emitted s @ map AlertTriggered fired \<and>
            alertHistory (priceUpdates smb ((d, p) # ups) s) =
              foldl pushHistory (alertHistory s) fired \<and>
            sends (priceUpdates smb ((d, p) # ups) s) =
              sends s @ concat (map (dispatchCycle (length (notifiers s))) fired) \<and>
            length (filter (\<lambda>e. alertKey e = key) fired) = 1"
    by blast
  have second: "processPriceUpdate_body k' q s' =
              s'\<lparr>alerts := mapModify k' (\<lambda>_. b\<lparr>lastPrice := Some q\<rparr>) (alerts s')\<rparr>"
    if "mapGet k' (alerts s') = Some b \<and> status b = Active \<and>
              fst (checkAlert b q) \<and> inCooldown s' (alertKey b)" for k' b q and s' :: manager
    using that by (intro body_quiet) simp_all
  from first second show ?thesis by blast
qed

theorem cooldown_once_witness:
  "0 < now repeating + int 0 \<and>
   \<not> inCooldown (repeating\<lparr>now := now repeating + int 0\<rparr>) (''ETHUSDT'', Above, 3000) \<and>
   mapGet ''r1'' (alerts repeating) =
     Some (newAlert ((ethAbove ''r1'')\<lparr>cfg_repeat := True\<rparr>) ''u1'' 1700000000000) \<and>
   repeat (newAlert ((ethAbove ''r1'')\<lparr>cfg_repeat := True\<rparr>) ''u1'' 1700000000000) \<and>
   fst (checkAlert (newAlert ((ethAbove ''r1'')\<lparr>cfg_repeat := True\<rparr>) ''u1'' 1700000000000) 3100) \<and>
   now (priceUpdates ''ETHUSDT'' threeHits repeating) - (now repeating + int 0) < cooldown repeating \<and>
   (\<exists>fired.
      emitted (priceUpdates ''ETHUSDT'' threeHits repeating) =
        emitted repeating @ map AlertTriggered fired \<and>
      alertHistory (priceUpdates ''ETHUSDT'' threeHits repeating) =
        foldl pushHistory (alertHistory repeating) fired \<and>
      length (filter (\<lambda>e. alertKey e = (''ETHUSDT'', Above, 3000)) fired) = 1) \<and>
   map triggeredPrice (alertHistory (priceUpdates ''ETHUSDT'' threeHits repeating)) = [Some 3100] \<and>
   map fst (sends (priceUpdates ''ETHUSDT'' threeHits repeating)) = [0]"
proof -
  define A where "A = newAlert ((ethAbove ''r1'')\<lparr>cfg_repeat := True\<rparr>) ''u1'' 1700000000000"
  have h: "0 < now repeating + int 0"
    "\<not> inCooldown (repeating\<lparr>now := now repeating + int 0\<rparr>) (''ETHUSDT'', Above, 3000)"
    "mapGet ''r1'' (alerts repeating) = Some A"
    "status A = Active" "symbol A = ''ETHUSDT''" "alertKey A = (''ETHUSDT'', Above, 3000)"
    "fst (checkAlert A 3100)" "repeat A"
    by (simp_all add: A_def repeating_eq inCooldown_iff newAlert_def ethAbove_def alertKey_def
        checkAlert_def Let_def)
  have w: "now (priceUpdates ''ETHUSDT'' ((0, 3100) # [(30000, 3200), (30000, 3300)]) repeating)
             - (now repeating + int 0) < cooldown repeating"
    using repeating_run by (simp add: threeHits_def repeating_eq)
  from cooldown_once[OF h(1,2,3,4,5,6,7) w]
  have "\<exists>fired.
      emitted (priceUpdates ''ETHUSDT'' threeHits repeating) =
        emitted repeating @ map AlertTriggered fired \<and>
      alertHistory (priceUpdates ''ETHUSDT'' threeHits repeating) =
        foldl pushHistory (alertHistory repeating) fired \<and>
      length (filter (\<lambda>e. alertKey e = (''ETHUSDT'', Above, 3000)) fired) = 1"
    unfolding threeHits_def by blast
  with h w repeating_run show ?thesis by (simp add: A_def threeHits_def)
qed

text \<open>
  C3, as stated, fails. In the store with the two alerts (ETHUSDT, 3000, above) \<open>a1\<close>
  and \<open>a2\<close>, the alert \<open>a2\<close> is of type \<open>above\<close>, active, its cooldown key is not
  in cooldown, and the price 3100 is at or above its target; yet the update at 3100 does
  not fire it: its status is still \<open>active\<close>, and the history, the dispatches and the
  \<open>alert_triggered\<close> events are those of \<open>a1\<close> alone. The alert \<open>a1\<close>, evaluated first,
  has put the shared key in cooldown by the time \<open>a2\<close> is evaluated.
\<close>

theorem second_on_key_counterexample:
  "mapGet ''a2'' (alerts twoWatched) = Some (newAlert (ethAbove ''a2'') ''u2'' 1700000000000) \<and>
   atype (newAlert (ethAbove ''a2'') ''u2'' 1700000000000) = Above \<and>
   status (newAlert (ethAbove ''a2'') ''u2'' 1700000000000) = Active \<and>
   symbol (newAlert (ethAbove ''a2'') ''u2'' 1700000000000) = ''ETHUSDT'' \<and>
   price (newAlert (ethAbove ''a2'') ''u2'' 1700000000000) \<le> 3100 \<and>
   \<not> inCooldown twoWatched (alertKey (newAlert (ethAbove ''a2'') ''u2'' 1700000000000)) \<and>
   map_option status (mapGet ''a2'' (alerts (processPriceUpdate ''ETHUSDT'' 3100 twoWatched))) =
     Some Active \<and>
   map ident (alertHistory (processPriceUpdate ''ETHUSDT'' 3100 twoWatched)) = [''a1''] \<and>
   map (\<lambda>(j, n). ident (payload n)) (sends (processPriceUpdate ''ETHUSDT'' 3100 twoWatched)) =
     [''a1''] \<and>
   map ident (triggeredAlerts (emitted (processPriceUpdate ''ETHUSDT'' 3100 twoWatched))) = [''a1'']"
  by (simp add: twoWatched_eq processPriceUpdate_def activeOn_def selects_def newAlert_def
      ethAbove_def processPriceUpdate_body_def checkAlert_def Let_def inCooldown_def alertKey_def
      sendAlert_def pushHistory_def alertIdOf_def)

text \<open>
  C3, amended. Take a store reached by the operations of the manager and an alert in it
  that is \<open>active\<close>, of type \<open>above\<close> or \<open>below\<close>, with target \<open>T\<close>, whose cooldown key
  is not in cooldown when the update starts, and such that no active alert stored before
  it (in insertion order) has the same cooldown key. Process one price \<open>p\<close> for the
  symbol of the alert. If \<open>p \<ge> T\<close> (type \<open>above\<close>), respectively \<open>p \<le> T\<close> (type
  \<open>below\<close>), the alert fires: its record, set to \<open>triggered\<close> with the observed price,
  is one of the records the update fires, and these are, in order, emitted as
  \<open>alert_triggered\<close>, appended to the history (of which the last 100 entries are kept)
  and dispatched to every notifier; the stored alert is \<open>triggered\<close> afterwards, or
  \<open>active\<close> again when it repeats. Otherwise no alert on its cooldown key fires during
  the update, and the stored alert is unchanged but for \<open>lastPrice\<close>.
\<close>

theorem first_on_key_fires_iff:
  assumes r: "reachable s" and st: "alerts s = xs @ (k, a) # ys"
    and act: "status a = Active" and ty: "atype a = Above \<or> atype a = Below"
    and sy: "symbol a = smb" and nc: "\<not> inCooldown s (alertKey a)"
    and first: "\<forall>(j, b) \<in> set xs. status b = Active \<longrightarrow> alertKey b \<noteq> alertKey a"
  shows "if (if atype a = Above then price a \<le> p else p \<le> price a)
         then \<exists>t fired.
                now s \<le> t \<and> firedAlert a p t \<in> set fired \<and>
                status (firedAlert a p t) = Triggered \<and>
                triggeredPrice (firedAlert a p t) = Some p \<and>
                emitted (processPriceUpdate smb p s) = emitted s @ map AlertTriggered fired \<and>
                alertHistory (processPriceUpdate smb p s) =
                  drop (length (alertHistory s @ fired) - 100) (alertHistory s @ fired) \<and>
                sends (processPriceUpdate smb p s) =
                  sends s @ concat (map (dispatchCycle (length (notifiers s))) fired) \<and>
                mapGet k (alerts (processPriceUpdate smb p s)) =
                  Some (if repeat a then (firedAlert a p t)\<lparr>status := Active\<rparr>
                        else firedAlert a p t)
         else \<exists>fired.
                (\<forall>e \<in> set fired. alertKey e \<noteq> alertKey a) \<and>
                emitted (processPriceUpdate smb p s) = emitted s @ map AlertTriggered fired \<and>
                alertHistory (processPriceUpdate smb p s) =
                  drop (length (alertHistory s @ fired) - 100) (alertHistory s @ fired) \<and>
                sends (processPriceUpdate smb p s) =
                  sends s @ concat (map (dispatchCycle (length (notifiers s))) fired) \<and>
                mapGet k (alerts (processPriceUpdate smb p s)) = Some (a\<lparr>lastPrice := Some p\<rparr>)"
proof -
  define key where "key = alertKey a"
  define pre where "pre = map fst (filter (\<lambda>(k, a). selects (activeOn smb) a) xs)"
  define post where "post = map fst (filter (\<lambda>(k, a). selects (activeOn smb) a) ys)"
  define s0 where "s0 = processPriceUpdate_loop pre p s"
  define s1 where "s1 = processPriceUpdate_body k p s0"
  from reachable_storeOk[OF r] have d: "distinct (map fst (alerts s))"
    and len: "length (alertHistory s) \<le> 100"
    by (simp_all add: storeOk_def)
  from act sy have sel: "selects (activeOn smb) a" by (simp add: selects_def activeOn_def)
  from selected_around[where P = "selects (activeOn smb)", OF d[unfolded st] sel]
  have ks: "map fst (filter (\<lambda>(k, a). selects (activeOn smb) a) (alerts s)) = pre @ k # post"
    and kpre: "k \<notin> set pre" and kpost: "k \<notin> set post"
    by (simp_all add: st pre_def post_def)
  have fin: "processPriceUpdate smb p s = processPriceUpdate_loop post p s1"
    by (simp add: processPriceUpdate_def ks loop_append s0_def s1_def)
  have "(k, a) \<in> set (alerts s)" by (simp add: st)
  from mapGet_distinct[OF d this] have g: "mapGet k (alerts s) = Some a" .
  from loop_at_other[OF kpre, of p s] g have g0: "mapGet k (alerts s0) = Some a"
    by (simp add: s0_def)
  have fr0: "cooldown s0 = cooldown s" "now s \<le> now s0"
    "length (notifiers s0) = length (notifiers s)"
    unfolding s0_def using loop_frame[of pre p s] by simp_all
  have n1: "length (notifiers s1) = length (notifiers s)"
    unfolding s1_def using body_frame(4)[of k p s0] fr0(3) by simp
  from loop_trace[of pre p s] obtain f0 where
    f0: "emitted s0 = emitted s @ map AlertTriggered f0"
        "alertHistory s0 = foldl pushHistory (alertHistory s) f0"
        "sends s0 = sends s @ concat (map (dispatchCycle (length (notifiers s))) f0)"
    unfolding s0_def by blast
  from loop_trace[of post p s1] obtain f2 where
    f2: "emitted (processPriceUpdate smb p s) = emitted s1 @ map AlertTriggered f2"
        "alertHistory (processPriceUpdate smb p s) = foldl pushHistory (alertHistory s1) f2"
        "sends (processPriceUpdate smb p s) =
           sends s1 @ concat (map (dispatchCycle (length (notifiers s1))) f2)"
    unfolding fin by blast
  from loop_at_other[OF kpost, of p s1]
  have gf: "mapGet k (alerts (processPriceUpdate smb p s)) = mapGet k (alerts s1)"
    by (simp add: fin)
  from ty act
  have c: "fst (checkAlert a p) \<longleftrightarrow> (if atype a = Above then price a \<le> p else p \<le> price a)"
    by (auto simp add: checkAlert_def Let_def)
  show ?thesis
  proof (cases "if atype a = Above then price a \<le> p else p \<le> price a")
    case True
    have "False" if m: "(j, key) \<in> set (keysOf s)" and j: "j \<in> set pre" for j
    proof -
      from m obtain b' where b': "(j, b') \<in> set (alerts s)" "alertKey b' = key"
        by (auto simp add: keysOf_def)
      from j obtain b where b: "(j, b) \<in> set xs" "selects (activeOn smb) b"
        by (auto simp add: pre_def)
      from b(1) have "(j, b) \<in> set (alerts s)" by (simp add: st)
      from distinct_same_value[OF d this b'(1)] have "b = b'" .
      moreover from b(2) have "status b = Active" by (simp add: selects_def activeOn_def)
      ultimately show False using first b(1) b'(2) by (auto simp add: key_def)
    qed
    then have apart: "\<forall>(j, c) \<in> set (keysOf s). j \<in> set pre \<longrightarrow> c \<noteq> key"
      by auto
    from loop_apart[OF apart, of p] have "lastAlertTimes s0 key = lastAlertTimes s key"
      by (simp add: s0_def)
    from not_inCooldown_later[OF nc[folded key_def] this fr0(1,2)]
    have nc0: "\<not> inCooldown s0 key" .
    from True c g0 act nc0 have f: "fires k p s0" by (simp add: fires_def key_def)
    note b = body_fires[OF f g0, folded s1_def]
    define e where "e = firedAlert a p (now s0)"
    have hist: "alertHistory (processPriceUpdate smb p s) =
          foldl pushHistory (alertHistory s) (f0 @ e # f2)"
      by (simp add: f2(2) b(2) f0(2) e_def)
    have "emitted (processPriceUpdate smb p s) = emitted s @ map AlertTriggered (f0 @ e # f2)"
      by (simp add: f2(1) b(1) f0(1) e_def)
    moreover have "alertHistory (processPriceUpdate smb p s) =
        drop (length (alertHistory s @ (f0 @ e # f2)) - 100) (alertHistory s @ (f0 @ e # f2))"
      unfolding hist by (rule foldl_pushHistory_drop[OF len])
    moreover have "sends (processPriceUpdate smb p s) =
        sends s @ concat (map (dispatchCycle (length (notifiers s))) (f0 @ e # f2))"
      by (simp add: f2(3) b(3) f0(3) n1 fr0(3) e_def)
    moreover have "mapGet k (alerts (processPriceUpdate smb p s)) =
        Some (if repeat a then e\<lparr>status := Active\<rparr> else e)"
      unfolding gf b(5) using g0 by (simp add: mapGet_mapModify e_def)
    moreover have "e \<in> set (f0 @ e # f2)" by simp
    moreover have "status e = Triggered" "triggeredPrice e = Some p"
      by (simp_all add: e_def firedAlert_def)
    ultimately have "\<exists>t fired.
                now s \<le> t \<and> firedAlert a p t \<in> set fired \<and>
                status (firedAlert a p t) = Triggered \<and>
                triggeredPrice (firedAlert a p t) = Some p \<and>
                emitted (processPriceUpdate smb p s) = emitted s @ map AlertTriggered fired \<and>
                alertHistory (processPriceUpdate smb p s) =
                  drop (length (alertHistory s @ fired) - 100) (alertHistory s @ fired) \<and>
                sends (processPriceUpdate smb p s) =
                  sends s @ concat (map (dispatchCycle (length (notifiers s))) fired) \<and>
                mapGet k (alerts (processPriceUpdate smb p s)) =
                  Some (if repeat a then (firedAlert a p t)\<lparr>status := Active\<rparr>
                        else firedAlert a p t)"
      using fr0(2) unfolding e_def
      by (intro exI[of _ "now s0"] exI[of _ "f0 @ firedAlert a p (now s0) # f2"]) simp
    with True show ?thesis by simp
  next
    case False
    have nm: "\<forall>b. alertKey b = key \<longrightarrow> \<not> fst (checkAlert b p)"
    proof (intro allI impI)
      fix b
      assume "alertKey b = key"
      then have "atype b = atype a" "price b = price a" by (simp_all add: key_def alertKey_def)
      with False ty show "\<not> fst (checkAlert b p)"
        by (auto simp add: checkAlert_def Let_def split: if_splits)
    qed
    from nm have "\<not> fst (checkAlert a p)" by (simp add: key_def)
    with g0 have nf: "\<not> fires k p s0" by (simp add: fires_def)
    have g1: "mapGet k (alerts s1) = Some (a\<lparr>lastPrice := Some p\<rparr>)"
      unfolding s1_def body_not_fires[OF nf] using g0 act by (simp add: mapGet_mapModify)
    from loop_trace[of "pre @ k # post" p s] obtain fired where
      f: "emitted (processPriceUpdate smb p s) = emitted s @ map AlertTriggered fired"
         "alertHistory (processPriceUpdate smb p s) = foldl pushHistory (alertHistory s) fired"
         "sends (processPriceUpdate smb p s) =
            sends s @ concat (map (dispatchCycle (length (notifiers s))) fired)"
      unfolding processPriceUpdate_def ks by blast
    from loop_no_match[OF nm, of "pre @ k # post" s]
    have "triggeredOn key (processPriceUpdate smb p s) = triggeredOn key s"
      by (simp add: processPriceUpdate_def ks)
    with triggeredOn_emitted[OF f(1), of key]
    have "filter (\<lambda>e. alertKey e = key) fired = []" by simp
    then have nk: "\<forall>e \<in> set fired. alertKey e \<noteq> alertKey a"
      by (simp add: filter_empty_conv key_def)
    have "alertHistory (processPriceUpdate smb p s) =
        drop (length (alertHistory s @ fired) - 100) (alertHistory s @ fired)"
      unfolding f(2) by (rule foldl_pushHistory_drop[OF len])
    with nk f(1,3) gf g1 have "\<exists>fired.
                (\<forall>e \<in> set fired. alertKey e \<noteq> alertKey a) \<and>
                emitted (processPriceUpdate smb p s) = emitted s @ map AlertTriggered fired \<and>
                alertHistory (processPriceUpdate smb p s) =
                  drop (length (alertHistory s @ fired) - 100) (alertHistory s @ fired) \<and>
                sends (processPriceUpdate smb p s) =
                  sends s @ concat (map (dispatchCycle (length (notifiers s))) fired) \<and>
                mapGet k (alerts (processPriceUpdate smb p s)) = Some (a\<lparr>lastPrice := Some p\<rparr>)"
      by (intro exI[of _ fired]) simp
    with False show ?thesis by simp
  qed
qed

theorem first_on_key_fires_iff_witness:
  "reachable twoWatched \<and>
   alerts twoWatched =
     [] @ (''a1'', newAlert (ethAbove ''a1'') ''u1'' 1700000000000) #
          [(''a2'', newAlert (ethAbove ''a2'') ''u2'' 1700000000000)] \<and>
   status (newAlert (ethAbove ''a1'') ''u1'' 1700000000000) = Active \<and>
   atype (newAlert (ethAbove ''a1'') ''u1'' 1700000000000) = Above \<and>
   price (newAlert (ethAbove ''a1'') ''u1'' 1700000000000) = 3000 \<and>
   symbol (newAlert (ethAbove ''a1'') ''u1'' 1700000000000) = ''ETHUSDT'' \<and>
   \<not> inCooldown twoWatched (alertKey (newAlert (ethAbove ''a1'') ''u1'' 1700000000000)) \<and>
   alertHistory twoWatched = [] \<and> sends twoWatched = [] \<and>
   alertHistory (processPriceUpdate ''ETHUSDT'' 3100 twoWatched) =
     [firedAlert (newAlert (ethAbove ''a1'') ''u1'' 1700000000000) 3100 1700000000000] \<and>
   sends (processPriceUpdate ''ETHUSDT'' 3100 twoWatched) =
     [(0, \<lparr>payload = firedAlert (newAlert (ethAbove ''a1'') ''u1'' 1700000000000) 3100 1700000000000,
           message = formatAlertMessage
             (firedAlert (newAlert (ethAbove ''a1'') ''u1'' 1700000000000) 3100 1700000000000)\<rparr>)] \<and>
   map_option status (mapGet ''a1'' (alerts (processPriceUpdate ''ETHUSDT'' 3100 twoWatched))) =
     Some Triggered \<and>
   alertHistory (processPriceUpdate ''ETHUSDT'' 2900 twoWatched) = [] \<and>
   sends (processPriceUpdate ''ETHUSDT'' 2900 twoWatched) = [] \<and>
   mapGet ''a1'' (alerts (processPriceUpdate ''ETHUSDT'' 2900 twoWatched)) =
     Some ((newAlert (ethAbove ''a1'') ''u1'' 1700000000000)\<lparr>lastPrice := Some 2900\<rparr>) \<and>
   reachable aboveBelow \<and>
   alerts aboveBelow =
     [(''a1'', newAlert (ethAbove ''a1'') ''u1'' 1700000000000)] @
       (''b1'', newAlert (ethBelow ''b1'') ''u2'' 1700000000000) # [] \<and>
   alertKey (newAlert (ethAbove ''a1'') ''u1'' 1700000000000) \<noteq>
     alertKey (newAlert (ethBelow ''b1'') ''u2'' 1700000000000) \<and>
   status (newAlert (ethBelow ''b1'') ''u2'' 1700000000000) = Active \<and>
   atype (newAlert (ethBelow ''b1'') ''u2'' 1700000000000) = Below \<and>
   price (newAlert (ethBelow ''b1'') ''u2'' 1700000000000) = 3000 \<and>
   symbol (newAlert (ethBelow ''b1'') ''u2'' 1700000000000) = ''ETHUSDT'' \<and>
   \<not> inCooldown aboveBelow (alertKey (newAlert (ethBelow ''b1'') ''u2'' 1700000000000)) \<and>
   alertHistory aboveBelow = [] \<and>
   alertHistory (processPriceUpdate ''ETHUSDT'' 2900 aboveBelow) =
     [firedAlert (newAlert (ethBelow ''b1'') ''u2'' 1700000000000) 2900 1700000000000] \<and>
   alertHistory (processPriceUpdate ''ETHUSDT'' 3100 aboveBelow) =
     [firedAlert (newAlert (ethAbove ''a1'') ''u1'' 1700000000000) 3100 1700000000000] \<and>
   mapGet ''b1'' (alerts (processPriceUpdate ''ETHUSDT'' 3100 aboveBelow)) =
     Some ((newAlert (ethBelow ''b1'') ''u2'' 1700000000000)\<lparr>lastPrice := Some 3100\<rparr>)"
proof -
  define A1 where "A1 = newAlert (ethAbove ''a1'') ''u1'' 1700000000000"
  define A2 where "A2 = newAlert (ethAbove ''a2'') ''u2'' 1700000000000"
  define B1 where "B1 = newAlert (ethBelow ''b1'') ''u2'' 1700000000000"
  define F where "F = firedAlert A1 3100 1700000000000"
  define G where "G = firedAlert B1 2900 1700000000000"
  have st: "alerts twoWatched = [] @ (''a1'', A1) # [(''a2'', A2)]"
    by (simp add: twoWatched_eq A1_def A2_def)
  have a: "status A1 = Active" "atype A1 = Above" "price A1 = 3000" "symbol A1 = ''ETHUSDT''"
    by (simp_all add: A1_def newAlert_def ethAbove_def)
  have nc: "\<not> inCooldown twoWatched (alertKey A1)"
    by (simp add: inCooldown_iff twoWatched_eq)
  have z: "alertHistory twoWatched = []" "sends twoWatched = []"
    "length (notifiers twoWatched) = 1"
    by (simp_all add: twoWatched_eq)
  have first: "\<forall>(j, b) \<in> set []. status b = Active \<longrightarrow> alertKey b \<noteq> alertKey A1"
    by simp
  note th = first_on_key_fires_iff[OF reachable_twoWatched st a(1) disjI1[OF a(2)] a(4) nc first]
  from th[of 3100] a obtain t :: int and fired where
    h: "emitted (processPriceUpdate ''ETHUSDT'' 3100 twoWatched) =
          emitted twoWatched @ map AlertTriggered fired"
       "alertHistory (processPriceUpdate ''ETHUSDT'' 3100 twoWatched) =
          drop (length (alertHistory twoWatched @ fired) - 100) (alertHistory twoWatched @ fired)"
       "sends (processPriceUpdate ''ETHUSDT'' 3100 twoWatched) =
          sends twoWatched @ concat (map (dispatchCycle (length (notifiers twoWatched))) fired)"
    by auto
  from h(1) twoWatched_hit(1) have "map AlertTriggered fired = [AlertTriggered F]"
    by (simp add: F_def A1_def)
  then have fired: "fired = [F]" by auto
  from th[of 2900] a obtain quiet where
    q: "emitted (processPriceUpdate ''ETHUSDT'' 2900 twoWatched) =
          emitted twoWatched @ map AlertTriggered quiet"
       "alertHistory (processPriceUpdate ''ETHUSDT'' 2900 twoWatched) =
          drop (length (alertHistory twoWatched @ quiet) - 100) (alertHistory twoWatched @ quiet)"
       "sends (processPriceUpdate ''ETHUSDT'' 2900 twoWatched) =
          sends twoWatched @ concat (map (dispatchCycle (length (notifiers twoWatched))) quiet)"
       "mapGet ''a1'' (alerts (processPriceUpdate ''ETHUSDT'' 2900 twoWatched)) =
          Some (A1\<lparr>lastPrice := Some 2900\<rparr>)"
    by auto
  from q(1) twoWatched_miss have quiet: "quiet = []" by simp
  have up: "alertHistory (processPriceUpdate ''ETHUSDT'' 3100 twoWatched) = [F]"
    unfolding h(2) by (simp add: fired z)
  have up_sends: "sends (processPriceUpdate ''ETHUSDT'' 3100 twoWatched) =
      [(0, \<lparr>payload = F, message = formatAlertMessage F\<rparr>)]"
    unfolding h(3) by (simp add: fired z dispatchCycle_def)
  have up_status: "map_option status (mapGet ''a1'' (alerts (processPriceUpdate ''ETHUSDT'' 3100 twoWatched))) =
     Some Triggered"
    by (simp add: twoWatched_hit(2) firedAlert_def)
  have down: "alertHistory (processPriceUpdate ''ETHUSDT'' 2900 twoWatched) = []"
    "sends (processPriceUpdate ''ETHUSDT'' 2900 twoWatched) = []"
    unfolding q(2,3) by (simp_all add: quiet z)
  have stb: "alerts aboveBelow = [(''a1'', A1)] @ (''b1'', B1) # []"
    by (simp add: aboveBelow_eq A1_def B1_def)
  have b: "status B1 = Active" "atype B1 = Below" "price B1 = 3000" "symbol B1 = ''ETHUSDT''"
    by (simp_all add: B1_def newAlert_def ethAbove_def ethBelow_def)
  have other: "alertKey A1 \<noteq> alertKey B1"
    by (simp add: alertKey_def a b)
  have ncb: "\<not> inCooldown aboveBelow (alertKey B1)"
    by (simp add: inCooldown_iff aboveBelow_eq)
  have zb: "alertHistory aboveBelow = []" by (simp add: aboveBelow_eq)
  have firstb: "\<forall>(j, c) \<in> set [(''a1'', A1)]. status c = Active \<longrightarrow> alertKey c \<noteq> alertKey B1"
    using other by simp
  note tb = first_on_key_fires_iff[OF reachable_aboveBelow stb b(1) disjI2[OF b(2)] b(4) ncb firstb]
  from tb[of 2900] b obtain t' :: int and fell where
    hb: "emitted (processPriceUpdate ''ETHUSDT'' 2900 aboveBelow) =
          emitted aboveBelow @ map AlertTriggered fell"
       "alertHistory (processPriceUpdate ''ETHUSDT'' 2900 aboveBelow) =
          drop (length (alertHistory aboveBelow @ fell) - 100) (alertHistory aboveBelow @ fell)"
    by auto
  from hb(1) aboveBelow_update(1) have "map AlertTriggered fell = [AlertTriggered G]"
    by (simp add: G_def B1_def)
  then have fell: "fell = [G]" by auto
  from tb[of 3100] b obtain others where
    qb: "emitted (processPriceUpdate ''ETHUSDT'' 3100 aboveBelow) =
          emitted aboveBelow @ map AlertTriggered others"
       "alertHistory (processPriceUpdate ''ETHUSDT'' 3100 aboveBelow) =
          drop (length (alertHistory aboveBelow @ others) - 100) (alertHistory aboveBelow @ others)"
       "mapGet ''b1'' (alerts (processPriceUpdate ''ETHUSDT'' 3100 aboveBelow)) =
          Some (B1\<lparr>lastPrice := Some 3100\<rparr>)"
    by auto
  from qb(1) aboveBelow_update(2) have "map AlertTriggered others = [AlertTriggered F]"
    by (simp add: F_def A1_def)
  then have others: "others = [F]" by auto
  have bdown: "alertHistory (processPriceUpdate ''ETHUSDT'' 2900 aboveBelow) = [G]"
    unfolding hb(2) by (simp add: fell zb)
  have bup: "alertHistory (processPriceUpdate ''ETHUSDT'' 3100 aboveBelow) = [F]"
    unfolding qb(2) by (simp add: others zb)
  show ?thesis
    using reachable_twoWatched st a nc z q(4) up up_sends up_status down
      reachable_aboveBelow stb b other ncb zb bdown bup qb(3)
    unfolding F_def G_def A1_def A2_def B1_def by simp
qed

text \<open>
  C4. A \<open>cross\<close> alert, active, alone on its cooldown key, the key not in cooldown,
  and whose last observed price, if any, is not above the target. Under a sequence
  of price updates on its symbol whose prices never fall, start below the target and
  end at or above it, exactly one \<open>alert_triggered\<close> event is emitted on the key, and
  its price is the first of the sequence that is at or above the target, all prices
  before it (there is at least one) being below the target. This holds whether the
  alert repeats or not. And an alert of type \<open>cross\<close> whose \<open>lastPrice\<close> is unset
  never fires, whatever the price.
\<close>

theorem cross_fires_once:
  assumes "distinct (map fst (alerts s))" and "mapGet k (alerts s) = Some a"
    and "atype a = Cross" and "status a = Active" and "symbol a = smb" and "\<not> lastAbove a"
    and "\<not> inCooldown s (alertKey a)"
    and "\<forall>(j, b) \<in> set (alerts s). j \<noteq> k \<longrightarrow> alertKey b \<noteq> alertKey a"
    and "sorted (map snd ups)" and "ups \<noteq> []"
    and "snd (hd ups) < price a" and "price a \<le> snd (last ups)"
  shows "(\<exists>e below p above.
            triggeredOn (alertKey a) (priceUpdates smb ups s) = triggeredOn (alertKey a) s @ [e] \<and>
            triggeredPrice e = Some p \<and> map snd ups = below @ p # above \<and> below \<noteq> [] \<and>
            (\<forall>q \<in> set below. q < price a) \<and> price a \<le> p) \<and>
         (\<forall>k' b q s'. mapGet k' (alerts s') = Some b \<and> atype b = Cross \<and> lastPrice b = None \<longrightarrow>
            \<not> fires k' q s')"
proof -
  define key where "key = alertKey a"
  from rising_split[OF assms(10,11,12)] obtain before d p after where
    sp: "ups = before @ (d, p) # after" "before \<noteq> []" "\<forall>x \<in> set before. snd x < price a"
        "price a \<le> p"
    by blast
  define sA where "sA = priceUpdates smb before s"
  define bA where "bA = a\<lparr>lastPrice := Some (snd (last before))\<rparr>"
  define s0 where "s0 = sA\<lparr>now := now sA + int d\<rparr>"
  define sB where "sB = processPriceUpdate smb p s0"
  have fin: "priceUpdates smb ups s = priceUpdates smb after sB"
    by (simp add: sp(1) run_append sA_def s0_def sB_def)
  have w: "alone k key s" using assms(1,8) unfolding key_def by (rule alone_intro)
  from sp(3) have lt: "\<forall>p \<in> set (map snd before). p < price a" by auto
  from run_below[OF w assms(2,3,4,5) key_def[symmetric] assms(6) lt assms(7)[folded key_def]] sp(2)
  have A: "triggeredOn key sA = triggeredOn key s" "alone k key sA" "\<not> inCooldown sA key"
    "mapGet k (alerts sA) = Some bA"
    by (simp_all add: sA_def bA_def)
  from sp(2,3) have "snd (last before) < price a" by simp
  then have bA: "atype bA = Cross" "alertKey bA = key" "status bA = Active" "symbol bA = smb"
    "lastBelow bA" "price bA \<le> p" "price bA = price a"
    using assms(3,4,5) sp(4) by (simp_all add: bA_def key_def lastBelow_def)
  have w0: "alone k key s0" using A(2) by (simp add: s0_def)
  have g0: "mapGet k (alerts s0) = Some bA" using A(4) by (simp add: s0_def)
  have nc0: "\<not> inCooldown s0 key" unfolding s0_def by (rule inCooldown_now_later[OF A(3)])
  from cross_fire_update[OF w0 g0 bA(1,2,3,4,5,6) nc0] obtain t where
    B: "triggeredOn key sB = triggeredOn key s0 @ [firedAlert bA p t]"
       "mapGet k (alerts sB) =
          Some (if repeat bA then (firedAlert bA p t)\<lparr>status := Active\<rparr> else firedAlert bA p t)"
    unfolding sB_def by blast
  define bB where "bB = (if repeat bA then (firedAlert bA p t)\<lparr>status := Active\<rparr>
                         else firedAlert bA p t)"
  have bB: "atype bB = Cross" "lastPrice bB = Some p" "price bB \<le> p"
    using bA(1,6) by (simp_all add: bB_def firedAlert_def)
  have wB: "alone k key sB" unfolding sB_def by (rule alone_update[OF w0])
  from assms(9) have so: "sorted (map snd after)" and ge: "\<forall>x \<in> set (map snd after). p \<le> x"
    by (simp_all add: sp(1) sorted_append)
  from run_above[OF wB B(2)[folded bB_def] bB so ge, of smb] B(1) A(1)
  have one: "triggeredOn key (priceUpdates smb ups s) = triggeredOn key s @ [firedAlert bA p t]"
    unfolding fin by (simp add: s0_def)
  have tp: "triggeredPrice (firedAlert bA p t) = Some p" by (simp add: firedAlert_def)
  have ms: "map snd ups = map snd before @ p # map snd after" by (simp add: sp(1))
  from sp(2) have ne: "map snd before \<noteq> []" by simp
  from one tp ms ne lt sp(4)
  have first: "\<exists>e below p above.
            triggeredOn (alertKey a) (priceUpdates smb ups s) = triggeredOn (alertKey a) s @ [e] \<and>
            triggeredPrice e = Some p \<and> map snd ups = below @ p # above \<and> below \<noteq> [] \<and>
            (\<forall>q \<in> set below. q < price a) \<and> price a \<le> p"
    unfolding key_def by blast
  have second: "\<not> fires k' q s'"
    if "mapGet k' (alerts s') = Some b \<and> atype b = Cross \<and> lastPrice b = None"
    for k' b q and s' :: manager
    using that by (simp add: fires_def checkAlert_def Let_def lastBelow_def lastAbove_def)
  from first second show ?thesis by blast
qed

theorem cross_fires_once_witness:
  "distinct (map fst (alerts crossing)) \<and>
   mapGet ''c1'' (alerts crossing) = Some (newAlert ethCross ''u1'' 1700000000000) \<and>
   atype (newAlert ethCross ''u1'' 1700000000000) = Cross \<and>
   repeat (newAlert ethCross ''u1'' 1700000000000) \<and>
   lastPrice (newAlert ethCross ''u1'' 1700000000000) = None \<and>
   \<not> inCooldown crossing (''ETHUSDT'', Cross, 3000) \<and>
   sorted (map snd rising) \<and> snd (hd rising) < 3000 \<and> 3000 \<le> snd (last rising) \<and>
   map triggeredPrice (triggeredOn (''ETHUSDT'', Cross, 3000) (priceUpdates ''ETHUSDT'' rising crossing)) =
     [Some 3050] \<and>
   (\<exists>e below p above.
      triggeredOn (''ETHUSDT'', Cross, 3000) (priceUpdates ''ETHUSDT'' rising crossing) =
        triggeredOn (''ETHUSDT'', Cross, 3000) crossing @ [e] \<and>
      triggeredPrice e = Some p \<and> map snd rising = below @ p # above \<and> below \<noteq> [] \<and>
      (\<forall>q \<in> set below. q < 3000) \<and> 3000 \<le> p)"
proof -
  define A where "A = newAlert ethCross ''u1'' 1700000000000"
  have h: "distinct (map fst (alerts crossing))" "mapGet ''c1'' (alerts crossing) = Some A"
    "atype A = Cross" "status A = Active" "symbol A = ''ETHUSDT''" "\<not> lastAbove A"
    "\<not> inCooldown crossing (alertKey A)"
    "\<forall>(j, b) \<in> set (alerts crossing). j \<noteq> ''c1'' \<longrightarrow> alertKey b \<noteq> alertKey A"
    "sorted (map snd rising)" "rising \<noteq> []" "snd (hd rising) < price A"
    "price A \<le> snd (last rising)"
    by (simp_all add: A_def crossing_eq newAlert_def ethCross_def lastAbove_def inCooldown_iff
        rising_def)
  have k: "alertKey A = (''ETHUSDT'', Cross, 3000)" "price A = 3000" "repeat A" "lastPrice A = None"
    by (simp_all add: A_def newAlert_def ethCross_def alertKey_def)
  have t: "triggeredOn (''ETHUSDT'', Cross, 3000) crossing = []"
    by (simp add: triggeredOn_def crossing_eq)
  have ev: "map triggeredPrice
      (triggeredOn (''ETHUSDT'', Cross, 3000) (priceUpdates ''ETHUSDT'' rising crossing)) = [Some 3050]"
    by (simp add: triggeredOn_def rising_def crossing_eq processPriceUpdate_def activeOn_def
        selects_def newAlert_def
      ethCross_def processPriceUpdate_body_def checkAlert_def Let_def inCooldown_def alertKey_def
      sendAlert_def pushHistory_def lastBelow_def lastAbove_def firedAlert_def)
  from cross_fires_once[OF h]
  have "\<exists>e below p above.
      triggeredOn (alertKey A) (priceUpdates ''ETHUSDT'' rising crossing) =
        triggeredOn (alertKey A) crossing @ [e] \<and>
      triggeredPrice e = Some p \<and> map snd rising = below @ p # above \<and> below \<noteq> [] \<and>
      (\<forall>q \<in> set below. q < price A) \<and> price A \<le> p"
    by blast
  with h k ev show ?thesis unfolding A_def[symmetric] by simp
qed

text \<open>
  C5. When the store holds at least \<open>maxAlerts\<close> alerts, \<open>addAlert\<close> throws the
  capacity error and the state afterwards is the state before: nothing is stored,
  nothing is evicted, no event is emitted. Without a configured maximum the maximum
  is 100.
\<close>

theorem addAlert_at_capacity:
  assumes "maxAlerts s \<le> int (length (alerts s))"
  shows "addAlert c uuid s = (Inl (CapacityError (maxAlerts s)), s) \<and>
         maxAlerts (AlertManager (cfg\<lparr>c_maxAlerts := None\<rparr>) t) = 100"
  using assms by (simp add: addAlert_def AlertManager_def orDefault_def)

theorem addAlert_at_capacity_witness:
  "maxAlerts (twoAlerts atMostTwo) \<le> int (length (alerts (twoAlerts atMostTwo))) \<and>
   addAlert (ethAbove ''a3'') ''u3'' (twoAlerts atMostTwo) =
     (Inl (CapacityError 2), twoAlerts atMostTwo) \<and>
   length (alerts (twoAlerts atMostTwo)) = 2"
proof -
  have a: "length (alerts (twoAlerts atMostTwo)) = 2"
    by (simp add: twoAlerts_alerts atMostTwo_def orDefault_def)
  have m: "maxAlerts (twoAlerts atMostTwo) = 2"
    by (simp add: twoAlerts_def atMostTwo_def addAlert_def AlertManager_def orDefault_def Let_def)
  show ?thesis
    using addAlert_at_capacity[of "twoAlerts atMostTwo" "ethAbove ''a3''" "''u3''"]
    by (simp add: a m)
qed

text \<open>
  C6. \<open>sendAlert\<close> hands the same notification (the alert with the message built
  from it once) to every registered notifier, in order, whatever each of them does:
  a notifier that throws does not stop the loop. The function has no error result
  (the thrown error is caught, and logged when there is a logger), and it leaves the
  alerts, the history, the cooldown times and the emitted events as they were. So
  an alert that has fired and does not repeat is stored as \<open>triggered\<close> after its
  dispatch, whether the notifiers threw or not.
\<close>

theorem sendAlert_isolates_failures:
  "sends (sendAlert a s) = sends s @ dispatchCycle (length (notifiers s)) a \<and>
   alerts (sendAlert a s) = alerts s \<and>
   alertHistory (sendAlert a s) = alertHistory s \<and>
   lastAlertTimes (sendAlert a s) = lastAlertTimes s \<and>
   emitted (sendAlert a s) = emitted s \<and>
   (\<forall>k b p. fires k p s \<and> mapGet k (alerts s) = Some b \<and> \<not> repeat b \<longrightarrow>
      mapGet k (alerts (processPriceUpdate_body k p s)) = Some (firedAlert b p (now s)) \<and>
      status (firedAlert b p (now s)) = Triggered \<and>
      sends (processPriceUpdate_body k p s) =
        sends s @ dispatchCycle (length (notifiers s)) (firedAlert b p (now s)))"
proof -
  have "mapGet k (alerts (processPriceUpdate_body k p s)) = Some (firedAlert b p (now s)) \<and>
      status (firedAlert b p (now s)) = Triggered \<and>
      sends (processPriceUpdate_body k p s) =
        sends s @ dispatchCycle (length (notifiers s)) (firedAlert b p (now s))"
    if h: "fires k p s" "mapGet k (alerts s) = Some b" "\<not> repeat b" for k b p
    using body_fires(3,5)[OF h(1,2)] h(2,3)
    by (simp add: mapGet_mapModify firedAlert_def)
  then have body: "\<forall>k b p. fires k p s \<and> mapGet k (alerts s) = Some b \<and> \<not> repeat b \<longrightarrow>
      mapGet k (alerts (processPriceUpdate_body k p s)) = Some (firedAlert b p (now s)) \<and>
      status (firedAlert b p (now s)) = Triggered \<and>
      sends (processPriceUpdate_body k p s) =
        sends s @ dispatchCycle (length (notifiers s)) (firedAlert b p (now s))"
    by blast
  have "sends (sendAlert a s) = sends s @ dispatchCycle (length (notifiers s)) a \<and>
   alerts (sendAlert a s) = alerts s \<and>
   alertHistory (sendAlert a s) = alertHistory s \<and>
   lastAlertTimes (sendAlert a s) = lastAlertTimes s \<and>
   emitted (sendAlert a s) = emitted s"
    by (simp add: sendAlert_frame dispatchCycle_def)
  with body show ?thesis by blast
qed

theorem sendAlert_isolates_failures_witness:
  "(\<forall>n t. fst (send (notifiers watched ! 0) n t) = Threw ''unreachable'') \<and>
   logged (processPriceUpdate_body ''a1'' 3100 watched) = [''unreachable''] \<and>
   fires ''a1'' 3100 watched \<and>
   map_option status (mapGet ''a1'' (alerts (processPriceUpdate_body ''a1'' 3100 watched))) =
     Some Triggered \<and>
   map fst (sends (processPriceUpdate_body ''a1'' 3100 watched)) = [0, 1]"
proof -
  have g: "mapGet ''a1'' (alerts watched) = Some (newAlert (ethAbove ''a1'') ''u1'' 1700000000000)"
    by (simp add: watched_eq)
  have r: "\<not> repeat (newAlert (ethAbove ''a1'') ''u1'' 1700000000000)"
    by (simp add: newAlert_def ethAbove_def)
  have n: "length (notifiers watched) = 2" "sends watched = []" "notifiers watched ! 0 = failing"
    by (simp_all add: watched_eq)
  from sendAlert_isolates_failures[of "newAlert (ethAbove ''a1'') ''u1'' 0" watched] watched_fires g r
  have "mapGet ''a1'' (alerts (processPriceUpdate_body ''a1'' 3100 watched)) =
          Some (firedAlert (newAlert (ethAbove ''a1'') ''u1'' 1700000000000) 3100 (now watched)) \<and>
        status (firedAlert (newAlert (ethAbove ''a1'') ''u1'' 1700000000000) 3100 (now watched)) = Triggered \<and>
        sends (processPriceUpdate_body ''a1'' 3100 watched) =
          sends watched @ dispatchCycle (length (notifiers watched))
            (firedAlert (newAlert (ethAbove ''a1'') ''u1'' 1700000000000) 3100 (now watched))"
    by blast
  then show ?thesis
    using watched_fires watched_body_logged
    by (simp add: n dispatchCycle_def upt_rec)
qed

text \<open>
  C7. With a clock that does not run backwards and a timer that does not fire early:
  in every reachable state of a notifier (whose \<open>minInterval\<close> is 1000), the
  successful deliveries are spaced, that is, each was attempted at least 1000 ms after
  the send time recorded for the one before, and its own send time was recorded after
  the attempt. In one turn of the drain loop the attempt is made no earlier than
  \<open>lastSendTime + minInterval\<close>; when the delivery succeeds the send time is
  recorded, and when it throws \<open>lastSendTime\<close> is left as it was. The drain is
  serial: while \<open>processing\<close> is set, \<open>processQueue\<close> returns at once and \<open>send\<close> on
  an enabled, initialised notifier only appends to the queue; a drain that starts
  empties the queue and clears \<open>processing\<close>.
\<close>

theorem deliveries_paced:
  assumes "treachable s"
  shows "spaced 1000 (deliveries s) \<and> minInterval s = 1000 \<and>
         (\<forall>e n. \<not> thrown e \<longrightarrow>
            (\<exists>a r. deliveries (processQueue_turn e n s) = deliveries s @ [(a, r, n)] \<and>
                   lastSendTime s + 1000 \<le> a \<and> a \<le> r \<and>
                   lastSendTime (processQueue_turn e n s) = r)) \<and>
         (\<forall>e n. thrown e \<longrightarrow>
            deliveries (processQueue_turn e n s) = deliveries s \<and>
            lastSendTime (processQueue_turn e n s) = lastSendTime s) \<and>
         (\<forall>env. processQueue env (s\<lparr>processing := True\<rparr>) = s\<lparr>processing := True\<rparr>) \<and>
         (\<forall>env n. enabled s \<and> bot_obj s \<longrightarrow>
            tsend n env (s\<lparr>processing := True\<rparr>) =
              (True, s\<lparr>processing := True, messageQueue := messageQueue s @ [n]\<rparr>)) \<and>
         (\<forall>env. \<not> processing s \<longrightarrow>
            messageQueue (processQueue env s) = [] \<and> \<not> processing (processQueue env s))"
proof -
  from treachable_paced[OF assms] have p: "spaced 1000 (deliveries s)" and m: "minInterval s = 1000"
    by (auto simp add: paced_def)
  have d: "\<exists>a r. deliveries (processQueue_turn e n s) = deliveries s @ [(a, r, n)] \<and>
                   lastSendTime s + 1000 \<le> a \<and> a \<le> r \<and>
                   lastSendTime (processQueue_turn e n s) = r" if "\<not> thrown e" for e n
    using turn_delivered[OF that, of n s] m by auto
  have t: "deliveries (processQueue_turn e n s) = deliveries s \<and>
            lastSendTime (processQueue_turn e n s) = lastSendTime s" if "thrown e" for e n
    using turn_thrown[OF that, of n s] by simp
  have g: "processQueue env (s\<lparr>processing := True\<rparr>) = s\<lparr>processing := True\<rparr>" for env
    by (simp add: processQueue_def)
  have e: "tsend n env (s\<lparr>processing := True\<rparr>) =
              (True, s\<lparr>processing := True, messageQueue := messageQueue s @ [n]\<rparr>)"
    if "enabled s \<and> bot_obj s" for env n
    using that by (simp add: tsend_def Let_def)
  have q: "messageQueue (processQueue env s) = [] \<and> \<not> processing (processQueue env s)"
    if "\<not> processing s" for env
    using that by (simp add: processQueue_def loop_drains)
  from p m d t g e q show ?thesis by blast
qed

theorem deliveries_paced_witness:
  "treachable twoSent \<and> enabled twoSent \<and> bot_obj twoSent \<and>
   deliveries twoSent = [(5000, 5020, ''m1''), (6020, 6040, ''m2'')] \<and>
   spaced 1000 (deliveries twoSent)"
  using deliveries_paced[OF treachable_twoSent] treachable_twoSent
  by (simp add: twoSent_eq)

text \<open>
  C8. In every reachable state the history has at most 100 entries. When the loop body
  fires, the record of the firing is put at the end of the history, and when the
  history is full (100 entries) its oldest entry is dropped. When the body does not
  fire, the history is unchanged; a price update changes the history by exactly the
  pushes of the alerts whose \<open>alert_triggered\<close> events it emits, in order; and
  \<open>addAlert\<close>, \<open>removeAlert\<close>, \<open>addNotifier\<close> and \<open>clearTriggered\<close> leave it
  unchanged.
\<close>

theorem history_bounded_fifo:
  assumes "reachable s"
  shows "length (alertHistory s) \<le> 100 \<and>
         (\<forall>k p a. fires k p s \<and> mapGet k (alerts s) = Some a \<longrightarrow>
            alertHistory (processPriceUpdate_body k p s) =
              (if length (alertHistory s) < 100 then alertHistory s @ [firedAlert a p (now s)]
               else tl (alertHistory s) @ [firedAlert a p (now s)])) \<and>
         (\<forall>k p. \<not> fires k p s \<longrightarrow>
            alertHistory (processPriceUpdate_body k p s) = alertHistory s) \<and>
         (\<forall>smb p. \<exists>fired.
            emitted (processPriceUpdate smb p s) = emitted s @ map AlertTriggered fired \<and>
            alertHistory (processPriceUpdate smb p s) = foldl pushHistory (alertHistory s) fired) \<and>
         (\<forall>c uuid. alertHistory (snd (addAlert c uuid s)) = alertHistory s) \<and>
         (\<forall>k. alertHistory (snd (removeAlert k s)) = alertHistory s) \<and>
         (\<forall>n. alertHistory (addNotifier n s) = alertHistory s) \<and>
         alertHistory (snd (clearTriggered s)) = alertHistory s"
proof -
  from assms have len: "length (alertHistory s) \<le> 100"
    using reachable_storeOk by (simp add: storeOk_def)
  have fire: "alertHistory (processPriceUpdate_body k p s) =
              (if length (alertHistory s) < 100 then alertHistory s @ [firedAlert a p (now s)]
               else tl (alertHistory s) @ [firedAlert a p (now s)])"
    if "fires k p s" "mapGet k (alerts s) = Some a" for k p a
  proof (cases "length (alertHistory s) < 100")
    case True
    then show ?thesis by (simp add: body_fires(2)[OF that] pushHistory_not_full)
  next
    case False
    with len have "length (alertHistory s) = 100" by simp
    then show ?thesis by (simp add: body_fires(2)[OF that] pushHistory_full)
  qed
  have quiet: "alertHistory (processPriceUpdate_body k p s) = alertHistory s"
    if "\<not> fires k p s" for k p
    unfolding body_not_fires[OF that] by simp
  have upd: "\<exists>fired.
            emitted (processPriceUpdate smb p s) = emitted s @ map AlertTriggered fired \<and>
            alertHistory (processPriceUpdate smb p s) = foldl pushHistory (alertHistory s) fired"
    for smb p
    unfolding processPriceUpdate_def using loop_trace by blast
  have others: "alertHistory (snd (addAlert c uuid s)) = alertHistory s"
    "alertHistory (snd (removeAlert k s)) = alertHistory s"
    "alertHistory (addNotifier n s) = alertHistory s"
    "alertHistory (snd (clearTriggered s)) = alertHistory s" for c uuid k n
    by (simp_all add: addAlert_def removeAlert_def addNotifier_def clearTriggered_def Let_def
        split: option.splits)
  from len fire quiet upd others show ?thesis by blast
qed

theorem history_bounded_fifo_witness:
  "reachable twoWatched \<and> length (alertHistory twoWatched) \<le> 100 \<and>
   fires ''a1'' 3100 twoWatched \<and>
   alertHistory (processPriceUpdate_body ''a1'' 3100 twoWatched) =
     [firedAlert (newAlert (ethAbove ''a1'') ''u1'' 1700000000000) 3100 1700000000000] \<and>
   \<not> fires ''a1'' 2900 twoWatched \<and>
   alertHistory (processPriceUpdate_body ''a1'' 2900 twoWatched) = []"
proof -
  have f: "fires ''a1'' 3100 twoWatched" "\<not> fires ''a1'' 2900 twoWatched"
    by (simp_all add: fires_def twoWatched_eq newAlert_def ethAbove_def checkAlert_def
        inCooldown_iff alertKey_def Let_def)
  have g: "mapGet ''a1'' (alerts twoWatched) = Some (newAlert (ethAbove ''a1'') ''u1'' 1700000000000)"
    "alertHistory twoWatched = []" "now twoWatched = 1700000000000"
    by (simp_all add: twoWatched_eq)
  from history_bounded_fifo[OF reachable_twoWatched] f g
  have "alertHistory (processPriceUpdate_body ''a1'' 3100 twoWatched) =
     [firedAlert (newAlert (ethAbove ''a1'') ''u1'' 1700000000000) 3100 1700000000000]"
    "alertHistory (processPriceUpdate_body ''a1'' 2900 twoWatched) = []"
    by auto
  with f g reachable_twoWatched show ?thesis by simp
qed

text \<open>
  C9. \<open>removeAlert\<close> with a key that is not in the store returns false and leaves the
  state as it was (the function has no error result: it does not throw). With a key
  that is in the store it returns true, removes the entry of that key and no other,
  and emits \<open>alert_removed\<close> with the removed alert.
\<close>

theorem removeAlert_spec:
  "(k \<notin> fst ` set (alerts s) \<longrightarrow> removeAlert k s = (False, s)) \<and>
   (k \<in> fst ` set (alerts s) \<longrightarrow>
      (\<exists>a. mapGet k (alerts s) = Some a \<and>
           removeAlert k s =
             (True, s\<lparr>alerts := filter (\<lambda>(k', v). k' \<noteq> k) (alerts s),
                      emitted := emitted s @ [AlertRemoved a]\<rparr>)) \<and>
      mapGet k (alerts (snd (removeAlert k s))) = None \<and>
      (\<forall>j. j \<noteq> k \<longrightarrow> mapGet j (alerts (snd (removeAlert k s))) = mapGet j (alerts s)))"
proof (cases "mapGet k (alerts s)")
  case None
  then show ?thesis by (simp add: removeAlert_def mapGet_None_iff[symmetric])
next
  case (Some a)
  then have "k \<in> fst ` set (alerts s)" using mapGet_None_iff[of k "alerts s"] by simp
  with Some show ?thesis
    by (simp add: removeAlert_def mapDelete_filter[symmetric] mapGet_mapDelete)
qed

theorem removeAlert_spec_witness:
  "''zz'' \<notin> fst ` set (alerts (twoAlerts atMostTwo)) \<and>
   removeAlert ''zz'' (twoAlerts atMostTwo) = (False, twoAlerts atMostTwo) \<and>
   ''a1'' \<in> fst ` set (alerts (twoAlerts atMostTwo)) \<and>
   fst (removeAlert ''a1'' (twoAlerts atMostTwo)) = True \<and>
   map fst (alerts (snd (removeAlert ''a1'' (twoAlerts atMostTwo)))) = [''a2'']"
  using removeAlert_spec[of "''zz''" "twoAlerts atMostTwo"]
    removeAlert_spec[of "''a1''" "twoAlerts atMostTwo"]
  by (auto simp add: twoAlerts_alerts atMostTwo_def orDefault_def)

text \<open>
  C10. In a reachable state below its maximum, \<open>addAlert\<close> with a definition whose
  \<open>id\<close> is a key of the store returns the new alert (no error), whose fields come
  from the definition and the clock only. (An empty id is falsy: it is never a key, and
  \<open>addAlert\<close> generates an id in its place.) The new alert stands under that key in place
  of the old one: the keys, their order and their number are unchanged, and so is what
  is stored under every other key.
\<close>

theorem addAlert_same_id_replaces:
  assumes "reachable s" and "cfg_id c = Some k" and "k \<in> fst ` set (alerts s)"
    and "int (length (alerts s)) < maxAlerts s"
  shows "fst (addAlert c uuid s) = Inr (newAlert c uuid (now s)) \<and>
         ident (newAlert c uuid (now s)) = k \<and>
         length (alerts (snd (addAlert c uuid s))) = length (alerts s) \<and>
         map fst (alerts (snd (addAlert c uuid s))) = map fst (alerts s) \<and>
         mapGet k (alerts (snd (addAlert c uuid s))) = Some (newAlert c uuid (now s)) \<and>
         (\<forall>j. j \<noteq> k \<longrightarrow> mapGet j (alerts (snd (addAlert c uuid s))) = mapGet j (alerts s))"
proof -
  from reachable_storeOk[OF assms(1)] have "[] \<notin> fst ` set (alerts s)"
    by (simp add: storeOk_def)
  with assms(3) have "k \<noteq> []" by blast
  with assms(2) have i: "alertIdOf c uuid = k" by (simp add: alertIdOf_def)
  from assms(4) have r: "addAlert c uuid s =
    (Inr (newAlert c uuid (now s)),
     s\<lparr>alerts := mapSet k (newAlert c uuid (now s)) (alerts s),
       emitted := emitted s @ [AlertCreated (newAlert c uuid (now s))]\<rparr>)"
    by (simp add: addAlert_def Let_def i)
  show ?thesis
    unfolding r using assms(2,3)
    by (simp add: newAlert_def keys_mapSet_present length_mapSet_present mapGet_mapSet)
qed

theorem addAlert_same_id_replaces_witness:
  "reachable twoWatched \<and>
   cfg_id ((ethAbove ''a1'')\<lparr>cfg_price := 3500\<rparr>) = Some ''a1'' \<and>
   ''a1'' \<in> fst ` set (alerts twoWatched) \<and>
   int (length (alerts twoWatched)) < maxAlerts twoWatched \<and>
   map_option price (mapGet ''a1'' (alerts twoWatched)) = Some 3000 \<and>
   length (alerts (snd (addAlert ((ethAbove ''a1'')\<lparr>cfg_price := 3500\<rparr>) ''u3'' twoWatched))) = 2 \<and>
   map_option price
     (mapGet ''a1'' (alerts (snd (addAlert ((ethAbove ''a1'')\<lparr>cfg_price := 3500\<rparr>) ''u3'' twoWatched)))) =
     Some 3500"
proof -
  have h: "cfg_id ((ethAbove ''a1'')\<lparr>cfg_price := 3500\<rparr>) = Some ''a1''"
    "''a1'' \<in> fst ` set (alerts twoWatched)"
    "int (length (alerts twoWatched)) < maxAlerts twoWatched"
    by (simp_all add: ethAbove_def twoWatched_eq)
  have o: "map_option price (mapGet ''a1'' (alerts twoWatched)) = Some 3000"
    "length (alerts twoWatched) = 2"
    by (simp_all add: twoWatched_eq newAlert_def ethAbove_def)
  from addAlert_same_id_replaces[OF reachable_twoWatched h, of "''u3''"] h o reachable_twoWatched
  show ?thesis by (simp add: newAlert_def ethAbove_def)
qed

end
